theory Spec2Isabelle
  imports Complex_Main "HOL-Library.Word" "HOL-Library.Signed_Division"
begin

unbundle bit_operations_syntax

section \<open>Machine integers and voxel indices\<close>

text \<open>
  The grid code of \<^verbatim>\<open>src/slam/hybrid_grid.cc\<close> computes with C++ \<^verbatim>\<open>int\<close>, modelled as
  32-bit words. An \<^verbatim>\<open>Eigen::Array3i\<close> is the triple of its x, y and z coefficients.
  Addition, subtraction and multiplication wrap around, the order \<open>\<le>\<close> on words is the
  unsigned comparison the code obtains with \<^verbatim>\<open>cast<unsigned int>()\<close>, and the signed
  operators \<^verbatim>\<open>/\<close> and \<^verbatim>\<open>>>\<close> are written with \<open>sint\<close> and \<open>signed_drop_bit\<close>.
\<close>

type_synonym i32 = "32 word"
type_synonym Array3i = "i32 \<times> i32 \<times> i32"

text \<open>C++ division of two \<^verbatim>\<open>int\<close>s truncates towards zero.\<close>

definition int_div :: "i32 \<Rightarrow> i32 \<Rightarrow> i32" where
  "int_div a b = word_of_int (sint a sdiv sint b)"

text \<open>Coefficient-wise operations of Eigen arrays with a scalar.\<close>

definition array_plus :: "Array3i \<Rightarrow> i32 \<Rightarrow> Array3i" where
  "array_plus index c = (case index of (x, y, z) \<Rightarrow> (x + c, y + c, z + c))"

definition array_minus :: "Array3i \<Rightarrow> i32 \<Rightarrow> Array3i" where
  "array_minus index c = (case index of (x, y, z) \<Rightarrow> (x - c, y - c, z - c))"

definition array_times :: "Array3i \<Rightarrow> i32 \<Rightarrow> Array3i" where
  "array_times index c = (case index of (x, y, z) \<Rightarrow> (x * c, y * c, z * c))"

definition array_div :: "Array3i \<Rightarrow> i32 \<Rightarrow> Array3i" where
  "array_div index c = (case index of (x, y, z) \<Rightarrow> (int_div x c, int_div y c, int_div z c))"

definition array_sum :: "Array3i \<Rightarrow> Array3i \<Rightarrow> Array3i" where
  "array_sum a b = (case a of (x, y, z) \<Rightarrow> case b of (x', y', z') \<Rightarrow> (x + x', y + y', z + z'))"

definition array_diff :: "Array3i \<Rightarrow> Array3i \<Rightarrow> Array3i" where
  "array_diff a b = (case a of (x, y, z) \<Rightarrow> case b of (x', y', z') \<Rightarrow> (x - x', y - y', z - z'))"

text \<open>\<^verbatim>\<open>(index.cast<unsigned int>() >= c).any()\<close>: some coefficient, read as unsigned, is
  at least \<open>c\<close>.\<close>

definition any_unsigned_ge :: "Array3i \<Rightarrow> i32 \<Rightarrow> bool" where
  "any_unsigned_ge index c = (case index of (x, y, z) \<Rightarrow> c \<le> x \<or> c \<le> y \<or> c \<le> z)"

text \<open>\<^verbatim>\<open>ToFlatIndex\<close>: the flat z-major index of a 3-dimensional index.\<close>

definition ToFlatIndex :: "Array3i \<Rightarrow> nat \<Rightarrow> i32" where
  "ToFlatIndex index bits =
     (case index of (x, y, z) \<Rightarrow> push_bit bits (push_bit bits z + y) + x)"

text \<open>\<^verbatim>\<open>To3DIndex\<close>: the inverse conversion, with shifts and a mask.\<close>

definition To3DIndex :: "i32 \<Rightarrow> nat \<Rightarrow> Array3i" where
  "To3DIndex index bits =
     (let mask = push_bit bits 1 - 1
      in (index AND mask,
          signed_drop_bit bits index AND mask,
          signed_drop_bit bits (signed_drop_bit bits index)))"

section \<open>Cell values\<close>

text \<open>\<^verbatim>\<open>IsDefaultValue\<close>: a value is compared with the default constructed value of its
  type, here the parameter \<open>d\<close>.\<close>

definition IsDefaultValue :: "'v \<Rightarrow> 'v \<Rightarrow> bool" where
  "IsDefaultValue d v = (v = d)"

section \<open>FlatGrid\<close>

text \<open>A \<^verbatim>\<open>FlatGrid<ValueType, 3>\<close> is its array \<^verbatim>\<open>cells_\<close> of \<open>2 ^ (3 * 3)\<close> values.\<close>

type_synonym 'v FlatGrid = "'v list"

definition FlatGrid_new :: "'v \<Rightarrow> 'v FlatGrid" where
  "FlatGrid_new d = replicate (2 ^ (3 * 3)) d"

definition FlatGrid_grid_size :: i32 where
  "FlatGrid_grid_size = push_bit 3 1"

definition FlatGrid_value :: "'v FlatGrid \<Rightarrow> Array3i \<Rightarrow> 'v" where
  "FlatGrid_value cells index = cells ! unat (ToFlatIndex index 3)"

text \<open>\<^verbatim>\<open>FlatGrid::mutable_value\<close> returns the address of a cell: here its position in
  \<^verbatim>\<open>cells_\<close>.\<close>

definition FlatGrid_mutable_value :: "'v FlatGrid \<Rightarrow> Array3i \<Rightarrow> nat" where
  "FlatGrid_mutable_value cells index = unat (ToFlatIndex index 3)"

section \<open>NestedGrid\<close>

text \<open>A \<^verbatim>\<open>NestedGrid<FlatGrid<ValueType, 3>, 3>\<close> is its array \<^verbatim>\<open>meta_cells_\<close> of
  \<open>2 ^ (3 * 3)\<close> owning pointers, \<open>None\<close> for the null pointer.\<close>

type_synonym 'v NestedGrid = "'v FlatGrid option list"

definition NestedGrid_new :: "'v NestedGrid" where
  "NestedGrid_new = replicate (2 ^ (3 * 3)) None"

definition NestedGrid_grid_size :: i32 where
  "NestedGrid_grid_size = push_bit 3 FlatGrid_grid_size"

definition NestedGrid_GetMetaIndex :: "Array3i \<Rightarrow> Array3i" where
  "NestedGrid_GetMetaIndex index = array_div index FlatGrid_grid_size"

definition NestedGrid_value :: "'v \<Rightarrow> 'v NestedGrid \<Rightarrow> Array3i \<Rightarrow> 'v" where
  "NestedGrid_value d meta_cells index =
     (let meta_index = NestedGrid_GetMetaIndex index
      in case meta_cells ! unat (ToFlatIndex meta_index 3) of
           None \<Rightarrow> d
         | Some meta_cell \<Rightarrow>
             FlatGrid_value meta_cell
               (array_diff index (array_times meta_index FlatGrid_grid_size)))"

text \<open>\<^verbatim>\<open>NestedGrid::mutable_value\<close> constructs the wrapped grid when the meta cell is null
  and returns the address of the cell: the grid after the call, the position of the meta
  cell and the position of the cell in the wrapped grid.\<close>

definition NestedGrid_mutable_value ::
  "'v \<Rightarrow> 'v NestedGrid \<Rightarrow> Array3i \<Rightarrow> 'v NestedGrid \<times> nat \<times> nat" where
  "NestedGrid_mutable_value d meta_cells index =
     (let meta_index = NestedGrid_GetMetaIndex index;
          i = unat (ToFlatIndex meta_index 3);
          meta_cell = (case meta_cells ! i of
                         None \<Rightarrow> FlatGrid_new d
                       | Some c \<Rightarrow> c);
          inner_index = array_diff index (array_times meta_index FlatGrid_grid_size)
      in (meta_cells[i := Some meta_cell], i, FlatGrid_mutable_value meta_cell inner_index))"

section \<open>DynamicGrid\<close>

record 'v DynamicGrid =
  grid_bits :: nat
  grid_meta_cells :: "'v NestedGrid option list"

datatype error = CheckFailed | NullPointer | DanglingPointer

definition DynamicGrid_new :: "'v DynamicGrid" where
  "DynamicGrid_new = \<lparr>grid_bits = 1, grid_meta_cells = replicate 8 None\<rparr>"

definition grid_size :: "'v DynamicGrid \<Rightarrow> i32" where
  "grid_size g = push_bit (grid_bits g) NestedGrid_grid_size"

definition GetMetaIndex :: "Array3i \<Rightarrow> Array3i" where
  "GetMetaIndex index = array_div index NestedGrid_grid_size"

definition DynamicGrid_value :: "'v \<Rightarrow> 'v DynamicGrid \<Rightarrow> Array3i \<Rightarrow> 'v" where
  "DynamicGrid_value d g index =
     (let shifted_index = array_plus index (signed_drop_bit 1 (grid_size g))
      in if any_unsigned_ge shifted_index (grid_size g) then d
         else
           let meta_index = GetMetaIndex shifted_index
           in case grid_meta_cells g ! unat (ToFlatIndex meta_index (grid_bits g)) of
                None \<Rightarrow> d
              | Some meta_cell \<Rightarrow>
                  NestedGrid_value d meta_cell
                    (array_diff shifted_index (array_times meta_index NestedGrid_grid_size)))"

text \<open>\<^verbatim>\<open>Grow\<close>: the fatal \<^verbatim>\<open>CHECK_LE(new_bits, 8)\<close> is the error \<open>CheckFailed\<close>. The three
  nested loops run over \<open>z\<close>, \<open>y\<close> and \<open>x\<close> from 0 to \<open>(1 << bits_) - 1\<close> and move each meta
  cell to its place in the new vector.\<close>

definition loop_range :: "nat \<Rightarrow> i32 list" where
  "loop_range bits = map of_nat [0 ..< 2 ^ bits]"

definition Grow_move ::
  "nat \<Rightarrow> 'v NestedGrid option list \<Rightarrow> i32 \<Rightarrow> i32 \<Rightarrow> i32 \<Rightarrow>
   'v NestedGrid option list \<Rightarrow> 'v NestedGrid option list" where
  "Grow_move bits old z y x new_meta_cells =
     (let original_meta_index = (x, y, z);
          new_meta_index = array_plus original_meta_index (push_bit (bits - 1) 1)
      in new_meta_cells[unat (ToFlatIndex new_meta_index (bits + 1)) :=
           old ! unat (ToFlatIndex original_meta_index bits)])"

definition Grow :: "'v DynamicGrid \<Rightarrow> error + 'v DynamicGrid" where
  "Grow g =
     (let new_bits = grid_bits g + 1
      in if \<not> new_bits \<le> 8 then Inl CheckFailed
         else
           let new_meta_cells =
                 fold (\<lambda>z. fold (\<lambda>y. fold (Grow_move (grid_bits g) (grid_meta_cells g) z y)
                                     (loop_range (grid_bits g)))
                              (loop_range (grid_bits g)))
                   (loop_range (grid_bits g))
                   (replicate (8 * length (grid_meta_cells g)) None)
           in Inr \<lparr>grid_bits = new_bits, grid_meta_cells = new_meta_cells\<rparr>)"

lemma Grow_bits: "Grow g = Inr g' \<Longrightarrow> grid_bits g' = grid_bits g + 1 \<and> grid_bits g' \<le> 8"
  by (auto simp: Grow_def Let_def split: if_splits)

text \<open>\<^verbatim>\<open>DynamicGrid::mutable_value\<close> grows the grid and calls itself again while the index
  is out of range; in range it constructs the wrapped grid when the meta cell is null. The
  pointer it returns is the position of the meta cell, of the nested meta cell and of the
  cell.\<close>

type_synonym slot = "nat \<times> nat \<times> nat"

function DynamicGrid_mutable_value ::
  "'v \<Rightarrow> 'v DynamicGrid \<Rightarrow> Array3i \<Rightarrow> error + ('v DynamicGrid \<times> slot)" where
  "DynamicGrid_mutable_value d g index =
     (let shifted_index = array_plus index (signed_drop_bit 1 (grid_size g))
      in if any_unsigned_ge shifted_index (grid_size g) then
           (case Grow g of
              Inl e \<Rightarrow> Inl e
            | Inr g' \<Rightarrow> DynamicGrid_mutable_value d g' index)
         else
           let meta_index = GetMetaIndex shifted_index;
               i = unat (ToFlatIndex meta_index (grid_bits g));
               meta_cell = (case grid_meta_cells g ! i of
                              None \<Rightarrow> NestedGrid_new
                            | Some c \<Rightarrow> c);
               inner_index =
                 array_diff shifted_index (array_times meta_index NestedGrid_grid_size);
               (meta_cell', j, k) = NestedGrid_mutable_value d meta_cell inner_index
           in Inr (g\<lparr>grid_meta_cells := (grid_meta_cells g)[i := Some meta_cell']\<rparr>, (i, j, k)))"
  by pat_completeness auto
termination
  by (relation "measure (\<lambda>(d, g, index). 9 - grid_bits g)") (auto dest!: Grow_bits)

declare DynamicGrid_mutable_value.simps [simp del]


section \<open>From words to positions\<close>
lemma sint_of_nat_small: "n < 2 ^ 31 \<Longrightarrow> sint (of_nat n :: i32) = int n"
  by (simp add: signed_of_nat signed_take_bit_int_eq_self)

lemma unat_of_nat_small: "n < 2 ^ 32 \<Longrightarrow> unat (of_nat n :: i32) = n"
  by (simp add: unat_of_nat)

lemma sdiv_nonneg: "int a sdiv int c = int (a div c)"
  by (simp add: signed_divide_int_def sgn_if zdiv_int)

lemma int_div_of_nat:
  "a < 2 ^ 31 \<Longrightarrow> c < 2 ^ 31 \<Longrightarrow> int_div (of_nat a) (of_nat c) = of_nat (a div c)"
  by (simp add: int_div_def sint_of_nat_small sdiv_nonneg)

lemma of_nat_sub_mod: "(of_nat a :: i32) - of_nat (a div c) * of_nat c = of_nat (a mod c)"
proof -
  have "a = a div c * c + a mod c" by simp
  then have "(of_nat a :: i32) = of_nat (a div c) * of_nat c + of_nat (a mod c)"
    by (metis of_nat_add of_nat_mult)
  then show ?thesis by simp
qed

definition flat3 :: "nat \<Rightarrow> nat \<times> nat \<times> nat \<Rightarrow> nat" where
  "flat3 b p = (case p of (x, y, z) \<Rightarrow> (z * 2 ^ b + y) * 2 ^ b + x)"

lemma ToFlatIndex_of_nat:
  "ToFlatIndex (of_nat x, of_nat y, of_nat z) b = of_nat (flat3 b (x, y, z))"
  by (simp add: ToFlatIndex_def push_bit_eq_mult flat3_def)

lemma flat3_less:
  assumes "x < 2 ^ b" "y < 2 ^ b" "z < 2 ^ b"
  shows "flat3 b (x, y, z) < 2 ^ (3 * b)"
proof -
  define B :: nat where "B = 2 ^ b"
  have x: "x + 1 \<le> B" and y: "y + 1 \<le> B" and z: "z + 1 \<le> B" using assms B_def by simp_all
  have "z * B + y + 1 \<le> z * B + B" using y by simp
  also have "\<dots> = (z + 1) * B" by simp
  also have "\<dots> \<le> B * B" using z by (rule mult_le_mono1)
  finally have zy: "z * B + y + 1 \<le> B * B" .
  have "(z * B + y) * B + x + 1 \<le> (z * B + y) * B + B" using x by simp
  also have "\<dots> = (z * B + y + 1) * B" by simp
  also have "\<dots> \<le> (B * B) * B" using zy by (rule mult_le_mono1)
  finally have "(z * B + y) * B + x < B * B * B" by simp
  moreover have "(2::nat) ^ (3 * b) = 2 ^ (b + b + b)" by simp
  then have "B * B * B = 2 ^ (3 * b)" unfolding B_def by (simp only: power_add)
  ultimately show ?thesis by (simp only: flat3_def B_def prod.case)
qed

lemma flat3_x: "x < 2 ^ b \<Longrightarrow> flat3 b (x, y, z) mod 2 ^ b = x"
  by (simp add: flat3_def)

lemma flat3_y: "x < 2 ^ b \<Longrightarrow> y < 2 ^ b \<Longrightarrow> flat3 b (x, y, z) div 2 ^ b mod 2 ^ b = y"
  by (simp add: flat3_def)

lemma flat3_z: "x < 2 ^ b \<Longrightarrow> y < 2 ^ b \<Longrightarrow> flat3 b (x, y, z) div 2 ^ b div 2 ^ b = z"
  by (simp add: flat3_def)


lemma flat3_inj:
  assumes "x < 2 ^ b" "y < 2 ^ b" "x' < 2 ^ b" "y' < 2 ^ b"
    and "flat3 b (x, y, z) = flat3 b (x', y', z')"
  shows "x = x' \<and> y = y' \<and> z = z'"
proof -
  have "x = x'" using flat3_x [of x b y z] flat3_x [of x' b y' z'] assms by metis
  moreover have "y = y'" using flat3_y [of x b y z] flat3_y [of x' b y' z'] assms by metis
  moreover have "z = z'" using flat3_z [of x b y z] flat3_z [of x' b y' z'] assms by metis
  ultimately show ?thesis by simp
qed


definition shifted_nat :: "nat \<Rightarrow> i32 \<Rightarrow> nat" where
  "shifted_nat b c = unat (c + of_nat (32 * 2 ^ b))"

definition in_range :: "nat \<Rightarrow> Array3i \<Rightarrow> bool" where
  "in_range b index = (case index of (x, y, z) \<Rightarrow>
     shifted_nat b x < 64 * 2 ^ b \<and> shifted_nat b y < 64 * 2 ^ b \<and> shifted_nat b z < 64 * 2 ^ b)"

definition nested_slot :: "nat \<times> nat \<times> nat \<Rightarrow> nat \<times> nat" where
  "nested_slot p = (case p of (x, y, z) \<Rightarrow>
     (flat3 3 (x div 8, y div 8, z div 8), flat3 3 (x mod 8, y mod 8, z mod 8)))"

definition locate :: "nat \<Rightarrow> Array3i \<Rightarrow> slot" where
  "locate b index = (case index of (x, y, z) \<Rightarrow>
     (flat3 b (shifted_nat b x div 64, shifted_nat b y div 64, shifted_nat b z div 64),
      nested_slot (shifted_nat b x mod 64, shifted_nat b y mod 64, shifted_nat b z mod 64)))"

definition nested_at :: "'v \<Rightarrow> 'v NestedGrid \<Rightarrow> nat \<times> nat \<Rightarrow> 'v" where
  "nested_at d meta_cells s = (case s of (j, k) \<Rightarrow>
     (case meta_cells ! j of None \<Rightarrow> d | Some cells \<Rightarrow> cells ! k))"

definition cell_at :: "'v \<Rightarrow> 'v DynamicGrid \<Rightarrow> slot \<Rightarrow> 'v" where
  "cell_at d g s = (case s of (i, s') \<Rightarrow>
     (case grid_meta_cells g ! i of None \<Rightarrow> d | Some meta_cell \<Rightarrow> nested_at d meta_cell s'))"

lemma int_div_8: "a < 2 ^ 31 \<Longrightarrow> int_div (of_nat a) 8 = of_nat (a div 8)"
  using int_div_of_nat [of a 8] by simp

lemma int_div_64: "a < 2 ^ 31 \<Longrightarrow> int_div (of_nat a) 64 = of_nat (a div 64)"
  using int_div_of_nat [of a 64] by simp

lemma of_nat_sub_mod_8: "(of_nat a :: i32) - of_nat (a div 8) * 8 = of_nat (a mod 8)"
  using of_nat_sub_mod [of a 8] by simp

lemma of_nat_sub_mod_64: "(of_nat a :: i32) - of_nat (a div 64) * 64 = of_nat (a mod 64)"
  using of_nat_sub_mod [of a 64] by simp

lemma flat3_3_less: "x < 8 \<Longrightarrow> y < 8 \<Longrightarrow> z < 8 \<Longrightarrow> flat3 3 (x, y, z) < 512"
  using flat3_less [of x 3 y z] by simp

lemma unat_ToFlatIndex:
  assumes "x < 2 ^ b" "y < 2 ^ b" "z < 2 ^ b" "b \<le> 9"
  shows "unat (ToFlatIndex (of_nat x, of_nat y, of_nat z) b) = flat3 b (x, y, z)"
proof -
  have "(2::nat) ^ (3 * b) \<le> 2 ^ 27" using assms(4) by (intro power_increasing) simp_all
  with flat3_less [OF assms(1-3)] have "flat3 b (x, y, z) < 2 ^ 32" by simp
  then show ?thesis
    by (simp only: ToFlatIndex_of_nat unat_of_nat_small)
qed

lemma unat_ToFlatIndex_3:
  "x < 8 \<Longrightarrow> y < 8 \<Longrightarrow> z < 8 \<Longrightarrow>
   unat (ToFlatIndex (of_nat x, of_nat y, of_nat z) 3) = flat3 3 (x, y, z)"
  using unat_ToFlatIndex [of x 3 y z] by simp

lemma FlatGrid_value_of_nat:
  assumes "x < 8" "y < 8" "z < 8"
  shows "FlatGrid_value cells (of_nat x, of_nat y, of_nat z) = cells ! flat3 3 (x, y, z)"
  by (simp only: FlatGrid_value_def unat_ToFlatIndex_3 [OF assms])

lemma NestedGrid_value_of_nat:
  assumes "x < 64" "y < 64" "z < 64"
  shows "NestedGrid_value d meta_cells (of_nat x, of_nat y, of_nat z) =
    nested_at d meta_cells (nested_slot (x, y, z))"
proof -
  have m: "NestedGrid_GetMetaIndex (of_nat x, of_nat y, of_nat z) =
      (of_nat (x div 8), of_nat (y div 8), of_nat (z div 8))"
    using assms by (simp add: NestedGrid_GetMetaIndex_def array_div_def FlatGrid_grid_size_def int_div_8)
  have i: "array_diff (of_nat x, of_nat y, of_nat z)
       (array_times (of_nat (x div 8), of_nat (y div 8), of_nat (z div 8)) FlatGrid_grid_size) =
      (of_nat (x mod 8), of_nat (y mod 8), of_nat (z mod 8))"
    by (simp add: array_diff_def array_times_def FlatGrid_grid_size_def of_nat_sub_mod_8)
  have f: "unat (ToFlatIndex (of_nat (x div 8), of_nat (y div 8), of_nat (z div 8)) 3) =
      flat3 3 (x div 8, y div 8, z div 8)"
    using assms by (intro unat_ToFlatIndex_3) simp_all
  show ?thesis
    unfolding NestedGrid_value_def Let_def m i f nested_at_def nested_slot_def
    by (simp add: FlatGrid_value_of_nat split: option.splits)
qed

lemma NestedGrid_mutable_value_of_nat:
  assumes "x < 64" "y < 64" "z < 64"
  shows "NestedGrid_mutable_value d meta_cells (of_nat x, of_nat y, of_nat z) =
    (let (j, k) = nested_slot (x, y, z)
     in (meta_cells[j := Some (case meta_cells ! j of None \<Rightarrow> FlatGrid_new d | Some c \<Rightarrow> c)], j, k))"
proof -
  have m: "NestedGrid_GetMetaIndex (of_nat x, of_nat y, of_nat z) =
      (of_nat (x div 8), of_nat (y div 8), of_nat (z div 8))"
    using assms by (simp add: NestedGrid_GetMetaIndex_def array_div_def FlatGrid_grid_size_def int_div_8)
  have i: "array_diff (of_nat x, of_nat y, of_nat z)
       (array_times (of_nat (x div 8), of_nat (y div 8), of_nat (z div 8)) FlatGrid_grid_size) =
      (of_nat (x mod 8), of_nat (y mod 8), of_nat (z mod 8))"
    by (simp add: array_diff_def array_times_def FlatGrid_grid_size_def of_nat_sub_mod_8)
  have f: "unat (ToFlatIndex (of_nat (x div 8), of_nat (y div 8), of_nat (z div 8)) 3) =
      flat3 3 (x div 8, y div 8, z div 8)"
    using assms by (intro unat_ToFlatIndex_3) simp_all
  have f': "unat (ToFlatIndex (of_nat (x mod 8), of_nat (y mod 8), of_nat (z mod 8)) 3) =
      flat3 3 (x mod 8, y mod 8, z mod 8)"
    by (intro unat_ToFlatIndex_3) simp_all
  show ?thesis
    unfolding NestedGrid_mutable_value_def Let_def m i f FlatGrid_mutable_value_def f' nested_slot_def
    by simp
qed

lemma pow_le_256: "b \<le> 8 \<Longrightarrow> (2::nat) ^ b \<le> 256"
  using power_increasing [of b 8 "2::nat"] by simp

lemma grid_size_of_nat: "grid_size g = of_nat (64 * 2 ^ grid_bits g)"
  by (simp add: grid_size_def NestedGrid_grid_size_def FlatGrid_grid_size_def push_bit_eq_mult)

lemma signed_drop_bit_of_nat:
  assumes "n < 2 ^ 31"
  shows "signed_drop_bit k (of_nat n :: i32) = of_nat (n div 2 ^ k)"
proof -
  have "sint (signed_drop_bit k (of_nat n :: i32)) = int (n div 2 ^ k)"
    using assms by (simp add: sint_signed_drop_bit_eq sint_of_nat_small drop_bit_eq_div zdiv_int)
  then have "word_of_int (sint (signed_drop_bit k (of_nat n :: i32))) = (word_of_int (int (n div 2 ^ k)) :: i32)"
    by simp
  then show ?thesis by simp
qed

lemma half_of_nat:
  assumes "grid_bits g \<le> 8" 
  shows "signed_drop_bit 1 (grid_size g) = of_nat (32 * 2 ^ grid_bits g)"
proof -
  have "(64::nat) * 2 ^ grid_bits g < 2 ^ 31" using pow_le_256 [OF assms] by simp
  then have "signed_drop_bit 1 (of_nat (64 * 2 ^ grid_bits g) :: i32) = of_nat ((64 * 2 ^ grid_bits g) div 2 ^ 1)"
    by (rule signed_drop_bit_of_nat)
  moreover have "((64::nat) * 2 ^ grid_bits g) div 2 ^ 1 = 32 * 2 ^ grid_bits g" by simp
  ultimately show ?thesis
    by (simp only: grid_size_of_nat)
qed

lemma out_of_range_iff:
  assumes "grid_bits g \<le> 8"
  shows "any_unsigned_ge (array_plus index (signed_drop_bit 1 (grid_size g))) (grid_size g) =
    (\<not> in_range (grid_bits g) index)"
proof -
  have "(64::nat) * 2 ^ grid_bits g < 2 ^ 32" using pow_le_256 [OF assms] by simp
  then have u: "unat (of_nat (64 * 2 ^ grid_bits g) :: i32) = 64 * 2 ^ grid_bits g"
    by (rule unat_of_nat_small)
  obtain x y z where index: "index = (x, y, z)" by (cases index)
  show ?thesis
    apply (simp only: half_of_nat [OF assms])
    apply (simp only: index array_plus_def any_unsigned_ge_def in_range_def
      shifted_nat_def prod.case word_le_nat_alt grid_size_of_nat u)
    apply auto
    done
qed


lemma NestedGrid_grid_size_64: "NestedGrid_grid_size = 64"
  by (simp add: NestedGrid_grid_size_def FlatGrid_grid_size_def)

lemma div_64_less: "s < 64 * 2 ^ b \<Longrightarrow> s div 64 < (2::nat) ^ b"
  by (simp add: less_mult_imp_div_less mult.commute)

lemma meta_decompose:
  assumes "sx < 64 * 2 ^ b" "sy < 64 * 2 ^ b" "sz < 64 * 2 ^ b" "b \<le> 8"
  shows "GetMetaIndex (of_nat sx, of_nat sy, of_nat sz) =
      (of_nat (sx div 64), of_nat (sy div 64), of_nat (sz div 64))"
    and "unat (ToFlatIndex (of_nat (sx div 64), of_nat (sy div 64), of_nat (sz div 64)) b) =
      flat3 b (sx div 64, sy div 64, sz div 64)"
    and "array_diff (of_nat sx, of_nat sy, of_nat sz)
       (array_times (of_nat (sx div 64), of_nat (sy div 64), of_nat (sz div 64))
          NestedGrid_grid_size) =
      (of_nat (sx mod 64), of_nat (sy mod 64), of_nat (sz mod 64))"
proof -
  have small: "sx < 2 ^ 31" "sy < 2 ^ 31" "sz < 2 ^ 31"
    using assms pow_le_256 [OF assms(4)] by simp_all
  show "GetMetaIndex (of_nat sx, of_nat sy, of_nat sz) =
      (of_nat (sx div 64), of_nat (sy div 64), of_nat (sz div 64))"
    using small by (simp add: GetMetaIndex_def array_div_def NestedGrid_grid_size_64 int_div_64)
  show "unat (ToFlatIndex (of_nat (sx div 64), of_nat (sy div 64), of_nat (sz div 64)) b) =
      flat3 b (sx div 64, sy div 64, sz div 64)"
    using assms by (intro unat_ToFlatIndex div_64_less) simp_all
  show "array_diff (of_nat sx, of_nat sy, of_nat sz)
       (array_times (of_nat (sx div 64), of_nat (sy div 64), of_nat (sz div 64))
          NestedGrid_grid_size) =
      (of_nat (sx mod 64), of_nat (sy mod 64), of_nat (sz mod 64))"
    by (simp add: array_diff_def array_times_def NestedGrid_grid_size_64 of_nat_sub_mod_64)
qed

lemma array_plus_shifted:
  "array_plus (x, y, z) (of_nat (32 * 2 ^ b)) =
     (of_nat (shifted_nat b x), of_nat (shifted_nat b y), of_nat (shifted_nat b z))"
  by (simp add: array_plus_def shifted_nat_def)

lemma DynamicGrid_value_eq:
  assumes "grid_bits g \<le> 8"
  shows "DynamicGrid_value d g index =
    (if in_range (grid_bits g) index then cell_at d g (locate (grid_bits g) index) else d)"
proof (cases "in_range (grid_bits g) index")
  case False
  then show ?thesis
    unfolding DynamicGrid_value_def Let_def out_of_range_iff [OF assms] by simp
next
  case True
  obtain x y z where index: "index = (x, y, z)" by (cases index)
  let ?b = "grid_bits g"
  have r: "shifted_nat ?b x < 64 * 2 ^ ?b" "shifted_nat ?b y < 64 * 2 ^ ?b"
    "shifted_nat ?b z < 64 * 2 ^ ?b"
    using True by (simp_all add: in_range_def index)
  have sh: "array_plus index (signed_drop_bit 1 (grid_size g)) =
      (of_nat (shifted_nat ?b x), of_nat (shifted_nat ?b y), of_nat (shifted_nat ?b z))"
    by (simp only: half_of_nat [OF assms] index array_plus_shifted)
  have "DynamicGrid_value d g index =
      (case grid_meta_cells g ! flat3 ?b (shifted_nat ?b x div 64, shifted_nat ?b y div 64, shifted_nat ?b z div 64) of
         None \<Rightarrow> d
       | Some meta_cell \<Rightarrow> NestedGrid_value d meta_cell
           (of_nat (shifted_nat ?b x mod 64), of_nat (shifted_nat ?b y mod 64), of_nat (shifted_nat ?b z mod 64)))"
    unfolding DynamicGrid_value_def Let_def out_of_range_iff [OF assms]
    using True by (simp only: sh meta_decompose [OF r assms] if_False simp_thms)
  then show ?thesis
    using True by (simp add: NestedGrid_value_of_nat cell_at_def locate_def index split: option.splits)
qed


subsection \<open>Grow\<close>

lemma fold_product:
  "fold (\<lambda>a. fold (f a) bs) as = fold (\<lambda>(a, b). f a b) (List.product as bs)"
proof (induction as)
  case Nil
  then show ?case by simp
next
  case (Cons a as)
  have "fold (\<lambda>(a, b). f a b) (map (Pair a) bs) = fold (f a) bs"
    by (simp add: fold_map comp_def)
  with Cons show ?case by (simp add: comp_def)
qed

lemma fold_product3:
  "fold (\<lambda>z. fold (\<lambda>y. fold (\<lambda>x. f (z, y, x)) xs) ys) zs =
   fold f (List.product zs (List.product ys xs))"
proof -
  have "fold (\<lambda>y. fold (\<lambda>x. f (z, y, x)) xs) ys =
      fold (\<lambda>p. f (z, p)) (List.product ys xs)" for z
    using fold_product [of "\<lambda>y x. f (z, y, x)" xs ys]
    by (simp add: case_prod_unfold)
  then have "fold (\<lambda>z. fold (\<lambda>y. fold (\<lambda>x. f (z, y, x)) xs) ys) zs =
      fold (\<lambda>z. fold (\<lambda>p. f (z, p)) (List.product ys xs)) zs"
    by simp
  also have "\<dots> = fold f (List.product zs (List.product ys xs))"
    using fold_product [of "\<lambda>z p. f (z, p)" "List.product ys xs" zs]
    by (simp add: case_prod_unfold)
  finally show ?thesis .
qed

lemma length_fold_update: "length (fold (\<lambda>a xs. xs[f a := v a]) as xs) = length xs"
  by (induction as arbitrary: xs) simp_all

lemma fold_update_other:
  "n \<notin> f ` set as \<Longrightarrow> fold (\<lambda>a xs. xs[f a := v a]) as xs ! n = xs ! n"
  by (induction as arbitrary: xs) auto

lemma fold_update_hit:
  "a \<in> set as \<Longrightarrow> inj_on f (set as) \<Longrightarrow> f a < length xs \<Longrightarrow>
   fold (\<lambda>a xs. xs[f a := v a]) as xs ! f a = v a"
proof (induction as arbitrary: xs)
  case Nil
  then show ?case by simp
next
  case (Cons c as)
  show ?case
  proof (cases "a \<in> set as")
    case True
    then show ?thesis using Cons by (simp add: inj_on_def)
  next
    case False
    then have ac: "a = c" using Cons.prems by simp
    have "f a \<notin> f ` set as"
      using False Cons.prems(1,2) by (auto simp: inj_on_def)
    then show ?thesis using Cons.prems(3) by (simp add: fold_update_other ac)
  qed
qed

definition grow_target :: "nat \<Rightarrow> nat \<times> nat \<times> nat \<Rightarrow> nat" where
  "grow_target b p = (case p of (z, y, x) \<Rightarrow>
     flat3 (b + 1) (x + 2 ^ (b - 1), y + 2 ^ (b - 1), z + 2 ^ (b - 1)))"

definition grow_source :: "nat \<Rightarrow> nat \<times> nat \<times> nat \<Rightarrow> nat" where
  "grow_source b p = (case p of (z, y, x) \<Rightarrow> flat3 b (x, y, z))"

definition grow_triples :: "nat \<Rightarrow> (nat \<times> nat \<times> nat) list" where
  "grow_triples b = List.product [0 ..< 2 ^ b] (List.product [0 ..< 2 ^ b] [0 ..< 2 ^ b])"

lemma half_plus_less: "x < 2 ^ b \<Longrightarrow> x + 2 ^ (b - 1) < (2::nat) ^ (b + 1)"
proof -
  assume x: "x < 2 ^ b"
  have h: "(2::nat) ^ (b - 1) \<le> 2 ^ b" by (intro power_increasing) simp_all
  have "(2::nat) ^ (b + 1) = 2 ^ b + 2 ^ b" by simp
  with x h show ?thesis by linarith
qed

lemma Grow_move_of_nat:
  assumes "1 \<le> b" "b \<le> 8" "x < 2 ^ b" "y < 2 ^ b" "z < 2 ^ b"
  shows "Grow_move b old (of_nat z) (of_nat y) (of_nat x) new =
    new[grow_target b (z, y, x) := old ! grow_source b (z, y, x)]"
proof -
  have p: "array_plus (of_nat x, of_nat y, of_nat z) (push_bit (b - 1) 1) =
      (of_nat (x + 2 ^ (b - 1)), of_nat (y + 2 ^ (b - 1)), of_nat (z + 2 ^ (b - 1)))"
    by (simp add: array_plus_def push_bit_eq_mult)
  have t: "unat (ToFlatIndex (of_nat (x + 2 ^ (b - 1)), of_nat (y + 2 ^ (b - 1)), of_nat (z + 2 ^ (b - 1))) (b + 1)) =
      grow_target b (z, y, x)"
    unfolding grow_target_def prod.case
    using assms by (intro unat_ToFlatIndex half_plus_less) simp_all
  have s: "unat (ToFlatIndex (of_nat x, of_nat y, of_nat z) b) = grow_source b (z, y, x)"
    unfolding grow_source_def prod.case
    using assms by (intro unat_ToFlatIndex) simp_all
  show ?thesis
    unfolding Grow_move_def Let_def p t s ..
qed

lemma Grow_loops:
  assumes "1 \<le> b" "b \<le> 8"
  shows "fold (\<lambda>z. fold (\<lambda>y. fold (Grow_move b old z y) (loop_range b)) (loop_range b))
      (loop_range b) new =
    fold (\<lambda>p xs. xs[grow_target b p := old ! grow_source b p]) (grow_triples b) new"
proof -
  let ?r = "[0 ..< 2 ^ b]"
  let ?G = "\<lambda>z y x. Grow_move b old (of_nat z) (of_nat y) (of_nat x)"
  let ?U = "\<lambda>z y x xs. xs[grow_target b (z, y, x) := old ! grow_source b (z, y, x)]"
  have inner: "fold (?G z y) ?r = fold (?U z y) ?r" if "z \<in> set ?r" "y \<in> set ?r" for z y
  proof
    fix acc
    show "fold (?G z y) ?r acc = fold (?U z y) ?r acc"
      using that assms by (intro fold_cong ext) (simp_all add: Grow_move_of_nat)
  qed
  have middle: "fold (\<lambda>y. fold (?G z y) ?r) ?r = fold (\<lambda>y. fold (?U z y) ?r) ?r"
    if "z \<in> set ?r" for z
  proof
    fix acc
    show "fold (\<lambda>y. fold (?G z y) ?r) ?r acc = fold (\<lambda>y. fold (?U z y) ?r) ?r acc"
      using that by (intro fold_cong inner) simp_all
  qed
  have "fold (\<lambda>z. fold (\<lambda>y. fold (?G z y) ?r) ?r) ?r new =
      fold (\<lambda>z. fold (\<lambda>y. fold (?U z y) ?r) ?r) ?r new"
    by (intro fold_cong middle) simp_all
  also have "\<dots> = fold (\<lambda>p xs. xs[grow_target b p := old ! grow_source b p]) (grow_triples b) new"
    unfolding grow_triples_def
    by (rule fold_product3 [of "\<lambda>p xs. xs[grow_target b p := old ! grow_source b p]", THEN fun_cong])
  finally show ?thesis
    by (simp add: loop_range_def fold_map comp_def)
qed

definition FlatGrid_inv :: "'v FlatGrid \<Rightarrow> bool" where
  "FlatGrid_inv cells = (length cells = 2 ^ (3 * 3))"

definition NestedGrid_inv :: "'v NestedGrid \<Rightarrow> bool" where
  "NestedGrid_inv meta_cells =
     (length meta_cells = 2 ^ (3 * 3) \<and>
      (\<forall>cells. Some cells \<in> set meta_cells \<longrightarrow> FlatGrid_inv cells))"

definition DynamicGrid_inv :: "'v DynamicGrid \<Rightarrow> bool" where
  "DynamicGrid_inv g =
     (1 \<le> grid_bits g \<and> grid_bits g \<le> 8 \<and>
      length (grid_meta_cells g) = 2 ^ (3 * grid_bits g) \<and>
      (\<forall>meta_cell. Some meta_cell \<in> set (grid_meta_cells g) \<longrightarrow> NestedGrid_inv meta_cell))"

lemma unat_add32: "unat (a + b :: i32) = (unat a + unat b) mod 2 ^ 32"
  by (simp add: unat_word_ariths)

lemma shifted_nat_Suc:
  assumes "b \<le> 8"
  shows "shifted_nat (Suc b) c = (shifted_nat b c + 32 * 2 ^ b) mod 2 ^ 32"
proof -
  have "(32::nat) * 2 ^ b < 2 ^ 32" using pow_le_256 [OF assms] by simp
  then have u: "unat (of_nat (32 * 2 ^ b) :: i32) = 32 * 2 ^ b" by (rule unat_of_nat_small)
  have "(of_nat (32 * 2 ^ Suc b) :: i32) = of_nat (32 * 2 ^ b) + of_nat (32 * 2 ^ b)"
    by simp
  then have "c + (of_nat (32 * 2 ^ Suc b) :: i32) = (c + of_nat (32 * 2 ^ b)) + of_nat (32 * 2 ^ b)"
    by (simp only: add.assoc)
  then have "shifted_nat (Suc b) c = unat ((c + of_nat (32 * 2 ^ b)) + (of_nat (32 * 2 ^ b) :: i32))"
    by (simp only: shifted_nat_def)
  also have "\<dots> = (shifted_nat b c + 32 * 2 ^ b) mod 2 ^ 32"
    by (simp only: unat_add32 [of "c + of_nat (32 * 2 ^ b)"] u shifted_nat_def)
  finally show ?thesis .
qed
lemma pow_split: "1 \<le> b \<Longrightarrow> (2::nat) ^ b = 2 * 2 ^ (b - 1)"
  by (cases b) simp_all

lemma shifted_nat_less: "shifted_nat b c < 2 ^ 32"
  unfolding shifted_nat_def using unsigned_less [of "c + of_nat (32 * 2 ^ b) :: i32"] by simp

lemma shifted_nat_grow_in:
  assumes "1 \<le> b" "b \<le> 8" "shifted_nat b c < 64 * 2 ^ b"
  shows "shifted_nat (Suc b) c = shifted_nat b c + 64 * 2 ^ (b - 1)"
    and "shifted_nat (Suc b) c < 64 * 2 ^ Suc b"
proof -
  have p: "(2::nat) ^ b = 2 * 2 ^ (b - 1)" using assms(1) by (rule pow_split)
  have "(2::nat) ^ b \<le> 256" using assms(2) by (rule pow_le_256)
  then have "shifted_nat b c + 32 * 2 ^ b < 2 ^ 32" using assms(3) by simp
  then have "shifted_nat (Suc b) c = shifted_nat b c + 32 * 2 ^ b"
    by (simp only: shifted_nat_Suc [OF assms(2)] mod_less)
  then show "shifted_nat (Suc b) c = shifted_nat b c + 64 * 2 ^ (b - 1)"
    and "shifted_nat (Suc b) c < 64 * 2 ^ Suc b"
    using p assms(3) by simp_all
qed

lemma shifted_nat_grow_out:
  assumes "1 \<le> b" "b \<le> 8" "\<not> shifted_nat b c < 64 * 2 ^ b"
    "shifted_nat (Suc b) c < 64 * 2 ^ Suc b"
  shows "shifted_nat (Suc b) c div 64 < 2 ^ (b - 1) \<or>
    2 ^ (b - 1) + 2 ^ b \<le> shifted_nat (Suc b) c div 64"
proof -
  define H :: nat where "H = 2 ^ (b - 1)"
  define s where "s = shifted_nat b c"
  have p: "(2::nat) ^ b = 2 * H" unfolding H_def using assms(1) by (rule pow_split)
  have s32: "s < 2 ^ 32" unfolding s_def by (rule shifted_nat_less)
  have s: "128 * H \<le> s" using assms(3) p s_def by simp
  have s': "shifted_nat (Suc b) c = (s + 64 * H) mod 2 ^ 32"
    using shifted_nat_Suc [OF assms(2), of c] p s_def by simp
  show ?thesis
  proof (cases "s + 64 * H < 2 ^ 32")
    case True
    then have "shifted_nat (Suc b) c = s + 64 * H" using s' by simp
    then have "64 * (3 * H) \<le> shifted_nat (Suc b) c" using s by simp
    then have "3 * H \<le> shifted_nat (Suc b) c div 64"
      by (simp add: less_eq_div_iff_mult_less_eq mult.commute)
    then show ?thesis using p H_def by simp
  next
    case False
    have "2 * H \<le> 256" using pow_le_256 [OF assms(2)] p by simp
    then have small: "s + 64 * H - 2 ^ 32 < 64 * H" "s + 64 * H - 2 ^ 32 < 2 ^ 32"
      using s32 False by simp_all
    have "(s + 64 * H) mod 2 ^ 32 = (s + 64 * H - 2 ^ 32) mod 2 ^ 32"
      using False by (intro le_mod_geq) simp
    also have "\<dots> = s + 64 * H - 2 ^ 32" using small(2) by (rule mod_less)
    finally have "shifted_nat (Suc b) c < 64 * H" using s' small(1) by (simp only:)
    then have "shifted_nat (Suc b) c div 64 < H"
      by (simp add: less_mult_imp_div_less mult.commute)
    then show ?thesis using H_def by simp
  qed
qed

definition grow_cells :: "nat \<Rightarrow> 'a option list \<Rightarrow> 'a option list" where
  "grow_cells b old =
     fold (\<lambda>p xs. xs[grow_target b p := old ! grow_source b p]) (grow_triples b)
       (replicate (8 * length old) None)"

lemma Grow_eq:
  assumes "1 \<le> grid_bits g" "grid_bits g < 8"
  shows "Grow g = Inr \<lparr>grid_bits = Suc (grid_bits g),
    grid_meta_cells = grow_cells (grid_bits g) (grid_meta_cells g)\<rparr>"
  using assms by (simp add: Grow_def Let_def Grow_loops grow_cells_def)

lemma Grow_fails: "8 \<le> grid_bits g \<Longrightarrow> Grow g = Inl CheckFailed"
  by (simp add: Grow_def Let_def)

lemma set_grow_triples:
  "set (grow_triples b) = {(z, y, x). z < 2 ^ b \<and> y < 2 ^ b \<and> x < 2 ^ b}"
  by (auto simp: grow_triples_def)

lemma grow_target_inj: "inj_on (grow_target b) (set (grow_triples b))"
proof (rule inj_onI)
  fix p q
  assume p: "p \<in> set (grow_triples b)" and q: "q \<in> set (grow_triples b)"
    and e: "grow_target b p = grow_target b q"
  obtain z y x where pp: "p = (z, y, x)" by (cases p)
  obtain z' y' x' where qq: "q = (z', y', x')" by (cases q)
  have b: "x < 2 ^ b" "y < 2 ^ b" "x' < 2 ^ b" "y' < 2 ^ b"
    using p q by (simp_all add: set_grow_triples pp qq)
  have "flat3 (b + 1) (x + 2 ^ (b - 1), y + 2 ^ (b - 1), z + 2 ^ (b - 1)) =
      flat3 (b + 1) (x' + 2 ^ (b - 1), y' + 2 ^ (b - 1), z' + 2 ^ (b - 1))"
    using e by (simp add: grow_target_def pp qq)
  then have "x + 2 ^ (b - 1) = x' + 2 ^ (b - 1) \<and> y + 2 ^ (b - 1) = y' + 2 ^ (b - 1) \<and>
      z + 2 ^ (b - 1) = z' + 2 ^ (b - 1)"
    by (intro flat3_inj [where b="b + 1"] half_plus_less b)
  then show "p = q" by (simp add: pp qq)
qed

lemma length_grow_cells: "length (grow_cells b old) = 8 * length old"
  by (simp add: grow_cells_def length_fold_update)

lemma pow_3_Suc: "(2::nat) ^ (3 * Suc b) = 8 * 2 ^ (3 * b)"
proof -
  have "3 * Suc b = 3 + 3 * b" by simp
  then show ?thesis by (simp only: power_add) simp
qed

lemma grow_cells_moved:
  assumes "length old = 2 ^ (3 * b)" "x < 2 ^ b" "y < 2 ^ b" "z < 2 ^ b"
  shows "grow_cells b old ! flat3 (Suc b) (x + 2 ^ (b - 1), y + 2 ^ (b - 1), z + 2 ^ (b - 1)) =
    old ! flat3 b (x, y, z)"
proof -
  have m: "(z, y, x) \<in> set (grow_triples b)" using assms by (simp add: set_grow_triples)
  have "flat3 (b + 1) (x + 2 ^ (b - 1), y + 2 ^ (b - 1), z + 2 ^ (b - 1)) < 2 ^ (3 * (b + 1))"
    using assms by (intro flat3_less half_plus_less)
  then have l: "grow_target b (z, y, x) < length (replicate (8 * length old) (None :: 'a option))"
    using assms(1) pow_3_Suc [of b] by (simp add: grow_target_def)
  have "grow_cells b old ! grow_target b (z, y, x) = old ! grow_source b (z, y, x)"
    unfolding grow_cells_def
    by (rule fold_update_hit [OF m grow_target_inj l])
  then show ?thesis by (simp add: grow_target_def grow_source_def)
qed

lemma grow_cells_fresh:
  assumes "length old = 2 ^ (3 * b)" "x < 2 ^ Suc b" "y < 2 ^ Suc b" "z < 2 ^ Suc b"
    and out: "x < 2 ^ (b - 1) \<or> 2 ^ (b - 1) + 2 ^ b \<le> x \<or>
      y < 2 ^ (b - 1) \<or> 2 ^ (b - 1) + 2 ^ b \<le> y \<or>
      z < 2 ^ (b - 1) \<or> 2 ^ (b - 1) + 2 ^ b \<le> z"
  shows "grow_cells b old ! flat3 (Suc b) (x, y, z) = None"
proof -
  have n: "flat3 (Suc b) (x, y, z) \<notin> grow_target b ` set (grow_triples b)"
  proof
    assume "flat3 (Suc b) (x, y, z) \<in> grow_target b ` set (grow_triples b)"
    then obtain z' y' x' where b': "x' < 2 ^ b" "y' < 2 ^ b" "z' < 2 ^ b"
      and e: "flat3 (Suc b) (x, y, z) =
        flat3 (b + 1) (x' + 2 ^ (b - 1), y' + 2 ^ (b - 1), z' + 2 ^ (b - 1))"
      by (auto simp: set_grow_triples grow_target_def)
    have "x = x' + 2 ^ (b - 1) \<and> y = y' + 2 ^ (b - 1) \<and> z = z' + 2 ^ (b - 1)"
      using e assms(2,3) half_plus_less [OF b'(1)] half_plus_less [OF b'(2)]
      by (intro flat3_inj [where b="Suc b"]) simp_all
    then show False using out b' by auto
  qed
  have l: "flat3 (Suc b) (x, y, z) < 8 * length old"
    using flat3_less [OF assms(2-4)] assms(1) pow_3_Suc [of b] by simp
  show ?thesis
    unfolding grow_cells_def using l by (simp add: fold_update_other [OF n])
qed

lemma set_grow_cells: "length old = 2 ^ (3 * b) \<Longrightarrow> set (grow_cells b old) \<subseteq> insert None (set old)"
proof -
  assume len: "length old = 2 ^ (3 * b)"
  have "set (fold (\<lambda>p xs. xs[grow_target b p := old ! grow_source b p]) ps new) \<subseteq>
      insert None (set old)"
    if "set new \<subseteq> insert None (set old)" "set ps \<subseteq> set (grow_triples b)" for ps new
    using that
  proof (induction ps arbitrary: new)
    case Nil
    then show ?case by simp
  next
    case (Cons p ps)
    obtain z y x where p: "p = (z, y, x)" by (cases p)
    have "x < 2 ^ b" "y < 2 ^ b" "z < 2 ^ b"
      using Cons.prems(2) by (simp_all add: p set_grow_triples)
    then have "grow_source b p < length old"
      using flat3_less [of x b y z] len by (simp add: grow_source_def p)
    then have "old ! grow_source b p \<in> set old" by simp
    then have "set (new[grow_target b p := old ! grow_source b p]) \<subseteq> insert None (set old)"
      using Cons.prems(1) set_update_subset_insert [of new "grow_target b p" "old ! grow_source b p"]
      by auto
    then show ?case using Cons.IH Cons.prems(2) by simp
  qed
  moreover have "set (replicate (8 * length old) (None :: 'a option)) \<subseteq> insert None (set old)"
    by (cases "8 * length old = 0") simp_all
  ultimately show ?thesis unfolding grow_cells_def by blast
qed

lemma Grow_Inr_iff:
  assumes "1 \<le> grid_bits g"
  shows "Grow g = Inr g' \<longleftrightarrow>
    grid_bits g < 8 \<and> g' = \<lparr>grid_bits = Suc (grid_bits g),
      grid_meta_cells = grow_cells (grid_bits g) (grid_meta_cells g)\<rparr>"
proof (cases "grid_bits g < 8")
  case True
  then show ?thesis using Grow_eq [OF assms True] by auto
next
  case False
  then show ?thesis using Grow_fails [of g] by simp
qed

lemma cell_at_pair:
  "cell_at d g (i, s) =
     (case grid_meta_cells g ! i of None \<Rightarrow> d | Some meta_cell \<Rightarrow> nested_at d meta_cell s)"
  by (simp add: cell_at_def)

lemma cell_at_fst_snd:
  "cell_at d g s =
     (case grid_meta_cells g ! fst s of None \<Rightarrow> d | Some meta_cell \<Rightarrow> nested_at d meta_cell (snd s))"
  by (cases s) (simp add: cell_at_def split: option.splits)

lemma Grow_inv:
  assumes "DynamicGrid_inv g" "Grow g = Inr g'"
  shows "DynamicGrid_inv g'"
proof -
  let ?b = "grid_bits g"
  have b: "1 \<le> ?b" and len: "length (grid_meta_cells g) = 2 ^ (3 * ?b)"
    using assms(1) by (simp_all add: DynamicGrid_inv_def)
  have b8: "?b < 8" and g': "g' = \<lparr>grid_bits = Suc ?b,
      grid_meta_cells = grow_cells ?b (grid_meta_cells g)\<rparr>"
    using assms(2) Grow_Inr_iff [OF b] by simp_all
  have "Some c \<in> set (grow_cells ?b (grid_meta_cells g)) \<Longrightarrow> Some c \<in> set (grid_meta_cells g)" for c
    using set_grow_cells [OF len] by auto
  then show ?thesis
    using assms(1) b8 unfolding g' DynamicGrid_inv_def
    by (simp add: length_grow_cells len power_add)
qed

lemma div_64_add: "(s + 64 * h) div 64 = s div 64 + (h::nat)" "(s + 64 * h) mod 64 = s mod 64"
  by simp_all

lemma Grow_value:
  assumes "DynamicGrid_inv g" "Grow g = Inr g'"
  shows "DynamicGrid_value d g' index = DynamicGrid_value d g index"
proof -
  let ?b = "grid_bits g"
  let ?H = "(2::nat) ^ (?b - 1)"
  have b: "1 \<le> ?b" and len: "length (grid_meta_cells g) = 2 ^ (3 * ?b)"
    using assms(1) by (simp_all add: DynamicGrid_inv_def)
  have b8: "?b < 8" and g': "g' = \<lparr>grid_bits = Suc ?b,
      grid_meta_cells = grow_cells ?b (grid_meta_cells g)\<rparr>"
    using assms(2) Grow_Inr_iff [OF b] by simp_all
  have b8': "?b \<le> 8" using b8 by simp
  have bits': "grid_bits g' = Suc ?b" and cells': "grid_meta_cells g' = grow_cells ?b (grid_meta_cells g)"
    by (simp_all add: g')
  have le': "grid_bits g' \<le> 8" using b8 bits' by simp
  obtain x y z where index: "index = (x, y, z)" by (cases index)
  show ?thesis
  proof (cases "in_range ?b index")
    case True
    then have r: "shifted_nat ?b x < 64 * 2 ^ ?b" "shifted_nat ?b y < 64 * 2 ^ ?b"
      "shifted_nat ?b z < 64 * 2 ^ ?b"
      by (simp_all add: in_range_def index)
    note sx = shifted_nat_grow_in [OF b b8' r(1)]
    note sy = shifted_nat_grow_in [OF b b8' r(2)]
    note sz = shifted_nat_grow_in [OF b b8' r(3)]
    have in': "in_range (Suc ?b) index"
      using sx(2) sy(2) sz(2) by (simp only: in_range_def index prod.case simp_thms)
    have loc: "locate (Suc ?b) index =
        (flat3 (Suc ?b) (shifted_nat ?b x div 64 + ?H, shifted_nat ?b y div 64 + ?H,
           shifted_nat ?b z div 64 + ?H), snd (locate ?b index))"
      by (simp only: locate_def index prod.case sx(1) sy(1) sz(1) div_64_add snd_conv)
    have "grow_cells ?b (grid_meta_cells g) !
        flat3 (Suc ?b) (shifted_nat ?b x div 64 + ?H, shifted_nat ?b y div 64 + ?H,
           shifted_nat ?b z div 64 + ?H) =
        grid_meta_cells g ! fst (locate ?b index)"
      unfolding locate_def index prod.case fst_conv
      by (intro grow_cells_moved len div_64_less r)
    then have "cell_at d g' (locate (Suc ?b) index) = cell_at d g (locate ?b index)"
      unfolding loc cell_at_pair cells' by (simp add: cell_at_fst_snd split: option.splits)
    then show ?thesis
      using True in' by (simp add: DynamicGrid_value_eq [OF le'] DynamicGrid_value_eq [OF b8'] bits')
  next
    case False
    show ?thesis
    proof (cases "in_range (Suc ?b) index")
      case out: False
      then show ?thesis
        using False by (simp add: DynamicGrid_value_eq [OF le'] DynamicGrid_value_eq [OF b8'] bits')
    next
      case True
      then have r: "shifted_nat (Suc ?b) x < 64 * 2 ^ Suc ?b" "shifted_nat (Suc ?b) y < 64 * 2 ^ Suc ?b"
        "shifted_nat (Suc ?b) z < 64 * 2 ^ Suc ?b"
        by (simp_all add: in_range_def index)
      have "\<not> shifted_nat ?b x < 64 * 2 ^ ?b \<or> \<not> shifted_nat ?b y < 64 * 2 ^ ?b \<or>
          \<not> shifted_nat ?b z < 64 * 2 ^ ?b"
        using False by (simp add: in_range_def index)
      then have out: "shifted_nat (Suc ?b) x div 64 < ?H \<or> ?H + 2 ^ ?b \<le> shifted_nat (Suc ?b) x div 64 \<or>
          shifted_nat (Suc ?b) y div 64 < ?H \<or> ?H + 2 ^ ?b \<le> shifted_nat (Suc ?b) y div 64 \<or>
          shifted_nat (Suc ?b) z div 64 < ?H \<or> ?H + 2 ^ ?b \<le> shifted_nat (Suc ?b) z div 64"
        using shifted_nat_grow_out [OF b b8' _ r(1)] shifted_nat_grow_out [OF b b8' _ r(2)]
          shifted_nat_grow_out [OF b b8' _ r(3)]
        by blast
      have "grow_cells ?b (grid_meta_cells g) ! fst (locate (Suc ?b) index) = None"
        unfolding locate_def index prod.case fst_conv
        by (intro grow_cells_fresh len div_64_less r out)
      then have "cell_at d g' (locate (Suc ?b) index) = d"
        by (simp add: cell_at_fst_snd cells')
      then show ?thesis
        using False True by (simp add: DynamicGrid_value_eq [OF le'] DynamicGrid_value_eq [OF b8'] bits')
    qed
  qed
qed

text \<open>Reading and writing through the pointer returned by \<^verbatim>\<open>mutable_value\<close>. A pointer that
  does not address a constructed cell has no value (\<open>None\<close>).\<close>

definition slot_get :: "'v DynamicGrid \<Rightarrow> slot \<Rightarrow> 'v option" where
  "slot_get g p = (case p of (i, j, k) \<Rightarrow>
     if i < length (grid_meta_cells g) then
       (case grid_meta_cells g ! i of
          None \<Rightarrow> None
        | Some meta_cell \<Rightarrow>
            if j < length meta_cell then
              (case meta_cell ! j of
                 None \<Rightarrow> None
               | Some cells \<Rightarrow> if k < length cells then Some (cells ! k) else None)
            else None)
     else None)"

definition slot_set :: "'v DynamicGrid \<Rightarrow> slot \<Rightarrow> 'v \<Rightarrow> 'v DynamicGrid" where
  "slot_set g p v = (case p of (i, j, k) \<Rightarrow>
     g\<lparr>grid_meta_cells := (grid_meta_cells g)
        [i := map_option
           (\<lambda>meta_cell. meta_cell[j := map_option (\<lambda>cells. cells[k := v]) (meta_cell ! j)])
           (grid_meta_cells g ! i)]\<rparr>)"

definition nested_construct :: "'v \<Rightarrow> 'v NestedGrid \<Rightarrow> nat \<Rightarrow> 'v NestedGrid" where
  "nested_construct d meta_cells j =
     meta_cells[j := Some (case meta_cells ! j of None \<Rightarrow> FlatGrid_new d | Some c \<Rightarrow> c)]"

definition construct_cell :: "'v \<Rightarrow> 'v DynamicGrid \<Rightarrow> slot \<Rightarrow> 'v DynamicGrid" where
  "construct_cell d g p = (case p of (i, j, k) \<Rightarrow>
     g\<lparr>grid_meta_cells := (grid_meta_cells g)
        [i := Some (nested_construct d
                 (case grid_meta_cells g ! i of None \<Rightarrow> NestedGrid_new | Some c \<Rightarrow> c) j)]\<rparr>)"

definition valid_slot :: "nat \<Rightarrow> slot \<Rightarrow> bool" where
  "valid_slot b p = (case p of (i, j, k) \<Rightarrow> i < 2 ^ (3 * b) \<and> j < 512 \<and> k < 512)"

lemma nested_slot_less:
  assumes "x < 64" "y < 64" "z < 64"
  shows "fst (nested_slot (x, y, z)) < 512" "snd (nested_slot (x, y, z)) < 512"
  using assms by (simp_all add: nested_slot_def flat3_3_less)

lemma valid_locate:
  assumes "in_range b index"
  shows "valid_slot b (locate b index)"
proof -
  obtain x y z where index: "index = (x, y, z)" by (cases index)
  have r: "shifted_nat b x < 64 * 2 ^ b" "shifted_nat b y < 64 * 2 ^ b"
    "shifted_nat b z < 64 * 2 ^ b"
    using assms by (simp_all add: in_range_def index)
  have "flat3 b (shifted_nat b x div 64, shifted_nat b y div 64, shifted_nat b z div 64) < 2 ^ (3 * b)"
    by (intro flat3_less div_64_less r)
  moreover obtain j k where n: "nested_slot (shifted_nat b x mod 64, shifted_nat b y mod 64,
      shifted_nat b z mod 64) = (j, k)" by fastforce
  moreover have "j < 512" "k < 512"
    using nested_slot_less [of "shifted_nat b x mod 64" "shifted_nat b y mod 64" "shifted_nat b z mod 64"]
    by (simp_all add: n)
  ultimately show ?thesis by (simp add: valid_slot_def locate_def index)
qed

lemma DynamicGrid_mutable_value_in_range:
  assumes "grid_bits g \<le> 8" "in_range (grid_bits g) index"
  shows "DynamicGrid_mutable_value d g index =
    Inr (construct_cell d g (locate (grid_bits g) index), locate (grid_bits g) index)"
proof -
  obtain x y z where index: "index = (x, y, z)" by (cases index)
  let ?b = "grid_bits g"
  have r: "shifted_nat ?b x < 64 * 2 ^ ?b" "shifted_nat ?b y < 64 * 2 ^ ?b"
    "shifted_nat ?b z < 64 * 2 ^ ?b"
    using assms(2) by (simp_all add: in_range_def index)
  have sh: "array_plus index (signed_drop_bit 1 (grid_size g)) =
      (of_nat (shifted_nat ?b x), of_nat (shifted_nat ?b y), of_nat (shifted_nat ?b z))"
    by (simp only: half_of_nat [OF assms(1)] index array_plus_shifted)
  have n: "NestedGrid_mutable_value d mc
      (of_nat (shifted_nat ?b x mod 64), of_nat (shifted_nat ?b y mod 64), of_nat (shifted_nat ?b z mod 64)) =
      (nested_construct d mc (fst (snd (locate ?b index))), snd (locate ?b index))" for mc
    by (subst NestedGrid_mutable_value_of_nat)
      (simp_all add: locate_def index nested_construct_def case_prod_unfold Let_def)
  show ?thesis
    apply (subst DynamicGrid_mutable_value.simps)
    apply (simp only: Let_def out_of_range_iff [OF assms(1)] assms(2) simp_thms if_False)
    apply (simp only: sh meta_decompose [OF r assms(1)] n)
    apply (simp add: construct_cell_def locate_def index case_prod_unfold)
    done
qed

lemma DynamicGrid_mutable_value_out_of_range:
  assumes "grid_bits g \<le> 8" "\<not> in_range (grid_bits g) index"
  shows "DynamicGrid_mutable_value d g index =
    (case Grow g of Inl e \<Rightarrow> Inl e | Inr g' \<Rightarrow> DynamicGrid_mutable_value d g' index)"
  apply (subst DynamicGrid_mutable_value.simps)
  apply (simp only: Let_def out_of_range_iff [OF assms(1)] assms(2) simp_thms if_True)
  done

lemma slot_get_cell_at: "slot_get g s = Some v \<Longrightarrow> cell_at d g s = v"
  by (cases s) (auto simp: slot_get_def cell_at_def nested_at_def split: if_splits option.splits)

lemma cell_at_slot_set:
  assumes "slot_get g s = Some w"
  shows "cell_at d (slot_set g s v) s' = (if s' = s then v else cell_at d g s')"
proof -
  obtain i j k where s: "s = (i, j, k)" by (cases s)
  obtain i' j' k' where s': "s' = (i', j', k')" by (cases s')
  from assms obtain mc cells where a: "i < length (grid_meta_cells g)"
    "grid_meta_cells g ! i = Some mc" "j < length mc" "mc ! j = Some cells" "k < length cells"
    by (auto simp: slot_get_def s split: if_splits option.splits)
  show ?thesis
  proof (cases "i' = i")
    case False
    then show ?thesis by (simp add: s s' cell_at_def slot_set_def)
  next
    case i: True
    show ?thesis
    proof (cases "j' = j")
      case False
      then show ?thesis using a i by (simp add: s s' cell_at_def slot_set_def nested_at_def)
    next
      case True
      then show ?thesis using a i by (simp add: s s' cell_at_def slot_set_def nested_at_def nth_list_update)
    qed
  qed
qed

lemma slot_get_slot_set:
  "slot_get g s = Some w \<Longrightarrow> slot_get (slot_set g s v) s = Some v"
  by (cases s) (auto simp: slot_get_def slot_set_def split: if_splits option.splits)

lemma grid_bits_slot_set: "grid_bits (slot_set g s v) = grid_bits g"
  by (cases s) (simp add: slot_set_def)

lemma grid_bits_construct: "grid_bits (construct_cell d g s) = grid_bits g"
  by (cases s) (simp add: construct_cell_def)

lemma FlatGrid_inv_new: "FlatGrid_inv (FlatGrid_new d)"
  by (simp add: FlatGrid_inv_def FlatGrid_new_def)

lemma NestedGrid_inv_new: "NestedGrid_inv NestedGrid_new"
  by (simp add: NestedGrid_inv_def NestedGrid_new_def)

lemma set_update_Some:
  "Some c \<in> set (xs[i := Some c']) \<Longrightarrow> c = c' \<or> Some c \<in> set xs"
  using set_update_subset_insert [of xs i "Some c'"] by auto

lemma nth_Some_mem: "i < length xs \<Longrightarrow> xs ! i = Some c \<Longrightarrow> Some c \<in> set xs"
  by (metis nth_mem)

lemma NestedGrid_inv_nth:
  assumes "NestedGrid_inv mc" "j < length mc" "mc ! j = Some c"
  shows "FlatGrid_inv c"
proof -
  have "Some c \<in> set mc" using assms(2,3) by (rule nth_Some_mem)
  then show ?thesis using assms(1) by (simp add: NestedGrid_inv_def)
qed

lemma DynamicGrid_inv_nth:
  assumes "DynamicGrid_inv g" "i < length (grid_meta_cells g)" "grid_meta_cells g ! i = Some mc"
  shows "NestedGrid_inv mc"
proof -
  have "Some mc \<in> set (grid_meta_cells g)" using assms(2,3) by (rule nth_Some_mem)
  then show ?thesis using assms(1) by (simp add: DynamicGrid_inv_def)
qed

lemma NestedGrid_inv_update:
  assumes "NestedGrid_inv mc" "FlatGrid_inv c"
  shows "NestedGrid_inv (mc[j := Some c])"
  using assms unfolding NestedGrid_inv_def by (auto dest!: set_update_Some)

lemma DynamicGrid_inv_update:
  assumes "DynamicGrid_inv g" "NestedGrid_inv mc"
  shows "DynamicGrid_inv (g\<lparr>grid_meta_cells := (grid_meta_cells g)[i := Some mc]\<rparr>)"
  using assms unfolding DynamicGrid_inv_def by (auto dest!: set_update_Some)

lemma NestedGrid_inv_construct:
  assumes "NestedGrid_inv mc"
  shows "NestedGrid_inv (nested_construct d mc j)"
proof (cases "j < length mc")
  case True
  have "FlatGrid_inv (case mc ! j of None \<Rightarrow> FlatGrid_new d | Some c \<Rightarrow> c)"
    using NestedGrid_inv_nth [OF assms True] by (simp add: FlatGrid_inv_new split: option.splits)
  then show ?thesis
    unfolding nested_construct_def by (rule NestedGrid_inv_update [OF assms])
next
  case False
  then show ?thesis using assms by (simp add: nested_construct_def not_less list_update_beyond)
qed

lemma DynamicGrid_inv_construct:
  assumes "DynamicGrid_inv g"
  shows "DynamicGrid_inv (construct_cell d g s)"
proof -
  obtain i j k where s: "s = (i, j, k)" by (cases s)
  show ?thesis
  proof (cases "i < length (grid_meta_cells g)")
    case True
    have "NestedGrid_inv (case grid_meta_cells g ! i of None \<Rightarrow> NestedGrid_new | Some c \<Rightarrow> c)"
      using DynamicGrid_inv_nth [OF assms True] by (simp add: NestedGrid_inv_new split: option.splits)
    then have "NestedGrid_inv (nested_construct d
        (case grid_meta_cells g ! i of None \<Rightarrow> NestedGrid_new | Some c \<Rightarrow> c) j)"
      by (rule NestedGrid_inv_construct)
    then show ?thesis
      unfolding construct_cell_def s prod.case by (rule DynamicGrid_inv_update [OF assms])
  next
    case False
    then have "(grid_meta_cells g)[i := c] = grid_meta_cells g" for c by (simp add: not_less list_update_beyond)
    then show ?thesis using assms by (simp add: construct_cell_def s)
  qed
qed

lemma DynamicGrid_inv_slot_set:
  assumes "DynamicGrid_inv g"
  shows "DynamicGrid_inv (slot_set g s v)"
proof -
  obtain i j k where s: "s = (i, j, k)" by (cases s)
  have n: "NestedGrid_inv (mc[j := map_option (\<lambda>cells. cells[k := v]) (mc ! j)])"
    if "NestedGrid_inv mc" for mc :: "'a NestedGrid"
  proof (cases "j < length mc")
    case True
    show ?thesis
    proof (cases "mc ! j")
      case None
      then have "mc[j := None] = mc" using True by (simp add: list_update_same_conv)
      then show ?thesis using that None by simp
    next
      case (Some cells)
      then have "FlatGrid_inv cells" using NestedGrid_inv_nth [OF that True] by simp
      then have "FlatGrid_inv (cells[k := v])" by (simp add: FlatGrid_inv_def)
      then show ?thesis
        using NestedGrid_inv_update [OF that] Some by simp
    qed
  next
    case False
    then show ?thesis using that by (simp add: not_less list_update_beyond)
  qed
  show ?thesis
  proof (cases "i < length (grid_meta_cells g)")
    case True
    show ?thesis
    proof (cases "grid_meta_cells g ! i")
      case None
      then have "(grid_meta_cells g)[i := None] = grid_meta_cells g"
        using True by (simp add: list_update_same_conv)
      then show ?thesis using assms None by (simp add: s slot_set_def)
    next
      case (Some mc)
      then have "NestedGrid_inv mc" using DynamicGrid_inv_nth [OF assms True] by simp
      then have "DynamicGrid_inv (g\<lparr>grid_meta_cells := (grid_meta_cells g)
          [i := Some (mc[j := map_option (\<lambda>cells. cells[k := v]) (mc ! j)])]\<rparr>)"
        by (intro DynamicGrid_inv_update [OF assms] n)
      then show ?thesis
        using Some by (simp add: slot_set_def s)
    qed
  next
    case False
    then have "(grid_meta_cells g)[i := c] = grid_meta_cells g" for c by (simp add: not_less list_update_beyond)
    then show ?thesis using assms by (simp add: s slot_set_def)
  qed
qed


lemma nested_at_construct:
  assumes "length mc = 512" "j < 512" "k' < 512"
  shows "nested_at d (nested_construct d mc j) (j', k') = nested_at d mc (j', k')"
proof (cases "j' = j")
  case True
  then show ?thesis
    using assms by (simp add: nested_at_def nested_construct_def FlatGrid_new_def split: option.splits)
next
  case False
  then show ?thesis by (simp add: nested_at_def nested_construct_def)
qed

lemma cell_at_construct:
  assumes "DynamicGrid_inv g" "valid_slot (grid_bits g) s" "valid_slot (grid_bits g) s'"
  shows "cell_at d (construct_cell d g s) s' = cell_at d g s'"
proof -
  obtain i j k where s: "s = (i, j, k)" by (cases s)
  obtain i' j' k' where s': "s' = (i', j', k')" by (cases s')
  have b: "i < length (grid_meta_cells g)" "j < 512" "j' < 512" "k' < 512"
    using assms by (simp_all add: DynamicGrid_inv_def valid_slot_def s s')
  show ?thesis
  proof (cases "i' = i")
    case False
    then show ?thesis by (simp add: s s' cell_at_def construct_cell_def)
  next
    case True
    show ?thesis
    proof (cases "grid_meta_cells g ! i")
      case None
      have "nested_at d (nested_construct d NestedGrid_new j) (j', k') = d"
        using b by (subst nested_at_construct) (simp_all add: NestedGrid_new_def nested_at_def)
      then show ?thesis using None True b by (simp add: s s' cell_at_def construct_cell_def)
    next
      case (Some mc)
      then have "NestedGrid_inv mc" using DynamicGrid_inv_nth [OF assms(1) b(1)] by simp
      then have "length mc = 512" by (simp add: NestedGrid_inv_def)
      then show ?thesis
        using Some True b by (simp add: s s' cell_at_def construct_cell_def nested_at_construct)
    qed
  qed
qed

lemma slot_get_construct:
  assumes "DynamicGrid_inv g" "valid_slot (grid_bits g) s"
  shows "slot_get (construct_cell d g s) s = Some (cell_at d g s)"
proof -
  obtain i j k where s: "s = (i, j, k)" by (cases s)
  have b: "i < length (grid_meta_cells g)" "j < 512" "k < 512"
    using assms by (simp_all add: DynamicGrid_inv_def valid_slot_def s)
  have n: "(case nested_construct d mc j ! j of None \<Rightarrow> None
       | Some cells \<Rightarrow> if k < length cells then Some (cells ! k) else None) =
      Some (nested_at d mc (j, k))" if "NestedGrid_inv mc" for mc
  proof -
    have l: "j < length mc" using that b by (simp add: NestedGrid_inv_def)
    show ?thesis
    proof (cases "mc ! j")
      case None
      then show ?thesis using l b by (simp add: nested_construct_def nested_at_def FlatGrid_new_def)
    next
      case (Some c)
      then have "length c = 512" using NestedGrid_inv_nth [OF that l] by (simp add: FlatGrid_inv_def)
      then show ?thesis using l b Some by (simp add: nested_construct_def nested_at_def)
    qed
  qed
  have len: "NestedGrid_inv mc \<Longrightarrow> j < length (nested_construct d mc j)" for mc
    using b by (simp add: nested_construct_def NestedGrid_inv_def)
  show ?thesis
  proof (cases "grid_meta_cells g ! i")
    case None
    then show ?thesis
      using b n [OF NestedGrid_inv_new] len [OF NestedGrid_inv_new]
      by (simp add: s slot_get_def construct_cell_def cell_at_def nested_at_def NestedGrid_new_def)
  next
    case (Some mc)
    then have "NestedGrid_inv mc" using DynamicGrid_inv_nth [OF assms(1) b(1)] by simp
    then show ?thesis
      using b Some n [of mc] len [of mc]
      by (simp add: s slot_get_def construct_cell_def cell_at_def)
  qed
qed

text \<open>The indices a grid can hold: the range of a grid of 8 bits, the largest \<^verbatim>\<open>Grow\<close>
  allows.\<close>

definition addressable :: "Array3i \<Rightarrow> bool" where
  "addressable index = (case index of (x, y, z) \<Rightarrow>
     - 8192 \<le> sint x \<and> sint x < 8192 \<and>
     - 8192 \<le> sint y \<and> sint y < 8192 \<and>
     - 8192 \<le> sint z \<and> sint z < 8192)"

lemma mod_wrap:
  fixes k :: int
  assumes "0 \<le> k" "k < 2 * N"
  shows "k mod N = (if k < N then k else k - N)"
proof (cases "k < N")
  case True
  then show ?thesis using assms(1) by simp
next
  case False
  have "k mod N = (k - N) mod N" by simp
  also have "\<dots> = k - N" using False assms(2) by (intro mod_pos_pos_trivial) simp_all
  finally show ?thesis using False by simp
qed

lemma sint_range_8: "shifted_nat 8 c < 64 * 2 ^ 8 \<longleftrightarrow> - 8192 \<le> sint c \<and> sint c < 8192"
proof -
  define u where "u = uint c"
  have u: "0 \<le> u" "u < 4294967296"
    using uint_lt2p [of c] by (simp_all add: u_def)
  have "sint c = (u + 2147483648) mod 4294967296 - 2147483648"
    using int_word_sint [of "uint c", where 'a=32] by (simp add: u_def)
  also have "(u + 2147483648) mod 4294967296 =
      (if u + 2147483648 < 4294967296 then u + 2147483648 else u + 2147483648 - 4294967296)"
    using u by (intro mod_wrap) simp_all
  finally have s: "sint c = (if u < 2147483648 then u else u - 4294967296)"
    by (simp split: if_splits)
  have "int (shifted_nat 8 c) = (u + 8192) mod 4294967296"
    by (simp add: shifted_nat_def uint_word_ariths u_def)
  also have "\<dots> = (if u + 8192 < 4294967296 then u + 8192 else u + 8192 - 4294967296)"
    using u by (intro mod_wrap) simp_all
  finally have "int (shifted_nat 8 c) = (if u + 8192 < 4294967296 then u + 8192 else u + 8192 - 4294967296)" .
  moreover have "shifted_nat 8 c < 64 * 2 ^ 8 \<longleftrightarrow> int (shifted_nat 8 c) < 16384"
    by simp
  ultimately have "shifted_nat 8 c < 64 * 2 ^ 8 \<longleftrightarrow>
      (if u + 8192 < 4294967296 then u + 8192 else u + 8192 - 4294967296) < 16384"
    by (simp only:)
  then show ?thesis unfolding s using u by (simp split: if_splits)
qed

lemma sint_range_8': "shifted_nat 8 c < 16384 \<longleftrightarrow> - 8192 \<le> sint c \<and> sint c < 8192"
  using sint_range_8 [of c] by simp

lemma in_range_8: "in_range 8 index = addressable index"
  by (cases index) (simp add: in_range_def addressable_def sint_range_8')

lemma in_range_Suc:
  assumes "1 \<le> b" "b \<le> 8" "in_range b index"
  shows "in_range (Suc b) index"
proof -
  obtain x y z where index: "index = (x, y, z)" by (cases index)
  have r: "shifted_nat b x < 64 * 2 ^ b" "shifted_nat b y < 64 * 2 ^ b"
    "shifted_nat b z < 64 * 2 ^ b"
    using assms(3) by (simp_all add: in_range_def index)
  show ?thesis
    using shifted_nat_grow_in(2) [OF assms(1,2) r(1)] shifted_nat_grow_in(2) [OF assms(1,2) r(2)]
      shifted_nat_grow_in(2) [OF assms(1,2) r(3)]
    by (simp only: in_range_def index prod.case simp_thms)
qed

lemma in_range_mono:
  assumes "1 \<le> b" "b \<le> b'" "b' \<le> 9" "in_range b index"
  shows "in_range b' index"
  using assms(2,3)
proof (induction b' rule: dec_induct)
  case base
  show ?case by (rule assms(4))
next
  case (step n)
  then show ?case using assms(1) by (intro in_range_Suc) simp_all
qed

lemma in_range_addressable:
  "1 \<le> b \<Longrightarrow> b \<le> 8 \<Longrightarrow> in_range b index \<Longrightarrow> addressable index"
  using in_range_mono [of b 8 index] by (simp add: in_range_8)

lemma mod_64_div_8_less: "a mod 64 div 8 < (8::nat)"
  by (intro less_mult_imp_div_less) simp

lemma shifted_nat_inj: "shifted_nat b c = shifted_nat b c' \<Longrightarrow> c = c'"
proof -
  assume "shifted_nat b c = shifted_nat b c'"
  then have "c + of_nat (32 * 2 ^ b) = c' + (of_nat (32 * 2 ^ b) :: i32)"
    unfolding shifted_nat_def by (rule word_unat_eq_iff [THEN iffD2])
  then show ?thesis by (simp only: add_right_cancel)
qed

lemma locate_inj:
  assumes "in_range b index" "in_range b index'" "locate b index = locate b index'"
  shows "index = index'"
proof -
  obtain x y z where index: "index = (x, y, z)" by (cases index)
  obtain x' y' z' where index': "index' = (x', y', z')" by (cases index')
  let ?s = "shifted_nat b"
  have r: "?s x < 64 * 2 ^ b" "?s y < 64 * 2 ^ b" "?s z < 64 * 2 ^ b"
    using assms(1) by (simp_all add: in_range_def index)
  have r': "?s x' < 64 * 2 ^ b" "?s y' < 64 * 2 ^ b" "?s z' < 64 * 2 ^ b"
    using assms(2) by (simp_all add: in_range_def index')
  have m: "flat3 b (?s x div 64, ?s y div 64, ?s z div 64) =
      flat3 b (?s x' div 64, ?s y' div 64, ?s z' div 64)"
    and j: "flat3 3 (?s x mod 64 div 8, ?s y mod 64 div 8, ?s z mod 64 div 8) =
      flat3 3 (?s x' mod 64 div 8, ?s y' mod 64 div 8, ?s z' mod 64 div 8)"
    and k: "flat3 3 (?s x mod 64 mod 8, ?s y mod 64 mod 8, ?s z mod 64 mod 8) =
      flat3 3 (?s x' mod 64 mod 8, ?s y' mod 64 mod 8, ?s z' mod 64 mod 8)"
    using assms(3) by (simp_all add: locate_def nested_slot_def index index')
  have m': "?s x div 64 = ?s x' div 64 \<and> ?s y div 64 = ?s y' div 64 \<and> ?s z div 64 = ?s z' div 64"
    by (rule flat3_inj [where b=b, OF _ _ _ _ m]) (intro div_64_less r r')+
  have j': "?s x mod 64 div 8 = ?s x' mod 64 div 8 \<and> ?s y mod 64 div 8 = ?s y' mod 64 div 8 \<and>
      ?s z mod 64 div 8 = ?s z' mod 64 div 8"
    by (rule flat3_inj [where b=3, OF _ _ _ _ j]) (simp_all add: mod_64_div_8_less)
  have k': "?s x mod 64 mod 8 = ?s x' mod 64 mod 8 \<and> ?s y mod 64 mod 8 = ?s y' mod 64 mod 8 \<and>
      ?s z mod 64 mod 8 = ?s z' mod 64 mod 8"
    by (rule flat3_inj [where b=3, OF _ _ _ _ k]) simp_all
  have eq: "a = a'" if "a div 64 = a' div 64" "a mod 64 div 8 = a' mod 64 div 8"
    "a mod 64 mod 8 = a' mod 64 mod 8" for a a' :: nat
  proof -
    have "a mod 64 = a' mod 64"
      by (metis that(2,3) div_mult_mod_eq)
    then show ?thesis
      by (metis that(1) div_mult_mod_eq)
  qed
  have "?s x = ?s x'" "?s y = ?s y'" "?s z = ?s z'"
    using m' j' k' by (auto intro: eq)
  then have "x = x'" "y = y'" "z = z'"
    by (auto dest: shifted_nat_inj)
  then show ?thesis by (simp add: index index')
qed

lemma DynamicGrid_value_construct:
  assumes "DynamicGrid_inv g" "valid_slot (grid_bits g) s"
  shows "DynamicGrid_value d (construct_cell d g s) index = DynamicGrid_value d g index"
proof -
  have b: "grid_bits g \<le> 8" using assms(1) by (simp add: DynamicGrid_inv_def)
  have "cell_at d (construct_cell d g s) (locate (grid_bits g) index) =
      cell_at d g (locate (grid_bits g) index)" if "in_range (grid_bits g) index"
    by (intro cell_at_construct assms valid_locate that)
  then show ?thesis
    using b by (simp add: DynamicGrid_value_eq grid_bits_construct)
qed

lemma DynamicGrid_value_slot_set:
  assumes "grid_bits g \<le> 8" "in_range (grid_bits g) index"
    "slot_get g (locate (grid_bits g) index) = Some w"
  shows "DynamicGrid_value d (slot_set g (locate (grid_bits g) index) v) index' =
    (if index' = index then v else DynamicGrid_value d g index')"
proof (cases "in_range (grid_bits g) index'")
  case True
  have "locate (grid_bits g) index' = locate (grid_bits g) index \<longleftrightarrow> index' = index"
    using locate_inj [OF True assms(2)] by auto
  then show ?thesis
    using assms(1,2) True
    by (simp add: DynamicGrid_value_eq grid_bits_slot_set cell_at_slot_set [OF assms(3)])
next
  case False
  then have "index' \<noteq> index" using assms(2) by auto
  then show ?thesis
    using assms(1) False by (simp add: DynamicGrid_value_eq grid_bits_slot_set)
qed

lemma DynamicGrid_mutable_value_result:
  assumes "DynamicGrid_inv g"
  shows "(\<not> addressable index \<and> DynamicGrid_mutable_value d g index = Inl CheckFailed) \<or>
    (addressable index \<and>
     (\<exists>g'. DynamicGrid_mutable_value d g index =
         Inr (construct_cell d g' (locate (grid_bits g') index), locate (grid_bits g') index) \<and>
       DynamicGrid_inv g' \<and> grid_bits g \<le> grid_bits g' \<and> in_range (grid_bits g') index \<and>
       (grid_bits g < grid_bits g' \<longrightarrow> \<not> in_range (grid_bits g' - 1) index) \<and>
       (\<forall>index'. DynamicGrid_value d g' index' = DynamicGrid_value d g index')))"
  using assms
proof (induction "8 - grid_bits g" arbitrary: g)
  case 0
  then have b: "grid_bits g = 8" by (simp add: DynamicGrid_inv_def)
  show ?case
  proof (cases "in_range 8 index")
    case True
    then show ?thesis
      using 0 b DynamicGrid_mutable_value_in_range [of g index d]
      by (auto simp: in_range_8 intro!: exI [of _ g])
  next
    case False
    then show ?thesis
      using b DynamicGrid_mutable_value_out_of_range [of g index d] Grow_fails [of g]
      by (simp add: in_range_8)
  qed
next
  case (Suc n)
  then have b: "1 \<le> grid_bits g" "grid_bits g < 8" "grid_bits g \<le> 8"
    by (simp_all add: DynamicGrid_inv_def)
  show ?case
  proof (cases "in_range (grid_bits g) index")
    case True
    then show ?thesis
      using Suc.prems b DynamicGrid_mutable_value_in_range [of g index d]
        in_range_addressable [of "grid_bits g" index]
      by (auto intro!: exI [of _ g])
  next
    case False
    let ?g1 = "\<lparr>grid_bits = Suc (grid_bits g),
      grid_meta_cells = grow_cells (grid_bits g) (grid_meta_cells g)\<rparr>"
    have grow: "Grow g = Inr ?g1" using b by (intro Grow_eq)
    have inv1: "DynamicGrid_inv ?g1" using Suc.prems grow by (rule Grow_inv)
    have val1: "DynamicGrid_value d ?g1 index' = DynamicGrid_value d g index'" for index'
      using Suc.prems grow by (rule Grow_value)
    have step: "DynamicGrid_mutable_value d g index = DynamicGrid_mutable_value d ?g1 index"
      using DynamicGrid_mutable_value_out_of_range [OF b(3) False, of d] by (simp add: grow)
    have n: "n = 8 - grid_bits ?g1" using Suc.hyps(2) by simp
    from Suc.hyps(1) [OF n inv1] show ?thesis
    proof (elim disjE conjE exE)
      assume "\<not> addressable index" "DynamicGrid_mutable_value d ?g1 index = Inl CheckFailed"
      then show ?thesis by (simp add: step)
    next
      fix g'
      assume a: "addressable index"
        "DynamicGrid_mutable_value d ?g1 index =
          Inr (construct_cell d g' (locate (grid_bits g') index), locate (grid_bits g') index)"
        "DynamicGrid_inv g'" "grid_bits ?g1 \<le> grid_bits g'" "in_range (grid_bits g') index"
        "grid_bits ?g1 < grid_bits g' \<longrightarrow> \<not> in_range (grid_bits g' - 1) index"
        "\<forall>index'. DynamicGrid_value d g' index' = DynamicGrid_value d ?g1 index'"
      have "\<not> in_range (grid_bits g' - 1) index"
      proof (cases "grid_bits ?g1 < grid_bits g'")
        case True
        then show ?thesis using a(6) by simp
      next
        case False
        then have "grid_bits g' - 1 = grid_bits g" using a(4) by simp
        then show ?thesis using \<open>\<not> in_range (grid_bits g) index\<close> by simp
      qed
      then show ?thesis
        using a val1 by (auto simp: step intro!: exI [of _ g'])
    qed
  qed
qed

text \<open>The assignment \<^verbatim>\<open>*grid.mutable_value(index) = v\<close>, and a sequence of such writes. A
  fatal check ends the sequence.\<close>

definition set_value :: "'v \<Rightarrow> 'v DynamicGrid \<Rightarrow> Array3i \<Rightarrow> 'v \<Rightarrow> error + 'v DynamicGrid" where
  "set_value d g index v =
     (case DynamicGrid_mutable_value d g index of
        Inl e \<Rightarrow> Inl e
      | Inr (g', p) \<Rightarrow> Inr (slot_set g' p v))"

fun set_values :: "'v \<Rightarrow> 'v DynamicGrid \<Rightarrow> (Array3i \<times> 'v) list \<Rightarrow> error + 'v DynamicGrid" where
  "set_values d g [] = Inr g"
| "set_values d g (w # ws) =
     (case set_value d g (fst w) (snd w) of
        Inl e \<Rightarrow> Inl e
      | Inr g' \<Rightarrow> set_values d g' ws)"

text \<open>The grids a program can reach: the constructor, calls of \<^verbatim>\<open>mutable_value\<close> and writes
  through the pointer a call returned.\<close>

inductive reachable :: "'v \<Rightarrow> 'v DynamicGrid \<Rightarrow> bool" for d :: 'v where
  reachable_new: "reachable d DynamicGrid_new"
| reachable_mutable_value:
    "reachable d g \<Longrightarrow> DynamicGrid_mutable_value d g index = Inr (g', p) \<Longrightarrow> reachable d g'"
| reachable_write:
    "reachable d g \<Longrightarrow> DynamicGrid_mutable_value d g index = Inr (g', p) \<Longrightarrow>
     reachable d (slot_set g' p v)"

text \<open>The number of times \<^verbatim>\<open>mutable_value\<close> grows the grid before it returns: the same
  recursion, counting the calls of \<^verbatim>\<open>Grow\<close> that succeed.\<close>

function grow_steps :: "'v DynamicGrid \<Rightarrow> Array3i \<Rightarrow> nat" where
  "grow_steps g index =
     (let shifted_index = array_plus index (signed_drop_bit 1 (grid_size g))
      in if any_unsigned_ge shifted_index (grid_size g) then
           (case Grow g of
              Inl e \<Rightarrow> 0
            | Inr g' \<Rightarrow> Suc (grow_steps g' index))
         else 0)"
  by pat_completeness auto
termination
  by (relation "measure (\<lambda>(g, index). 9 - grid_bits g)") (auto dest!: Grow_bits)

declare grow_steps.simps [simp del]

lemma DynamicGrid_inv_new: "DynamicGrid_inv DynamicGrid_new"
  by (simp add: DynamicGrid_inv_def DynamicGrid_new_def)

lemma DynamicGrid_mutable_value_Inr:
  assumes "DynamicGrid_inv g" "DynamicGrid_mutable_value d g index = Inr (g', p)"
  shows "addressable index" "DynamicGrid_inv g'" "grid_bits g \<le> grid_bits g'"
    "in_range (grid_bits g') index" "p = locate (grid_bits g') index"
    "slot_get g' p = Some (DynamicGrid_value d g index)"
    "DynamicGrid_value d g' index' = DynamicGrid_value d g index'"
    "DynamicGrid_value d (slot_set g' p v) index' =
       (if index' = index then v else DynamicGrid_value d g index')"
    "DynamicGrid_inv (slot_set g' p v)"
    "grid_bits (slot_set g' p v) = grid_bits g'"
proof -
  from DynamicGrid_mutable_value_result [OF assms(1), of index d] assms(2)
  obtain g1 where a: "addressable index"
    and g': "g' = construct_cell d g1 (locate (grid_bits g1) index)"
    and p: "p = locate (grid_bits g1) index"
    and inv1: "DynamicGrid_inv g1" and le: "grid_bits g \<le> grid_bits g1"
    and r: "in_range (grid_bits g1) index"
    and val: "\<And>index'. DynamicGrid_value d g1 index' = DynamicGrid_value d g index'"
    by auto
  have b: "grid_bits g' = grid_bits g1" by (simp add: g' grid_bits_construct)
  have b8: "grid_bits g1 \<le> 8" using inv1 by (simp add: DynamicGrid_inv_def)
  have v: "valid_slot (grid_bits g1) (locate (grid_bits g1) index)" using r by (rule valid_locate)
  show "addressable index" by (rule a)
  show inv': "DynamicGrid_inv g'" unfolding g' using inv1 by (rule DynamicGrid_inv_construct)
  show "grid_bits g \<le> grid_bits g'" using le b by simp
  show "in_range (grid_bits g') index" using r b by simp
  show p': "p = locate (grid_bits g') index" using p b by simp
  have "slot_get g' p = Some (cell_at d g1 (locate (grid_bits g1) index))"
    unfolding g' p by (rule slot_get_construct [OF inv1 v])
  then show get: "slot_get g' p = Some (DynamicGrid_value d g index)"
    using r b8 val [of index] by (simp add: DynamicGrid_value_eq)
  show val': "DynamicGrid_value d g' index' = DynamicGrid_value d g index'" for index'
    unfolding g' using DynamicGrid_value_construct [OF inv1 v] val by simp
  show "DynamicGrid_value d (slot_set g' p v) index' =
      (if index' = index then v else DynamicGrid_value d g index')"
    using DynamicGrid_value_slot_set [of g' index _ d v index'] b b8 r get val' [of index']
    by (simp add: p')
  show "DynamicGrid_inv (slot_set g' p v)" using inv' by (rule DynamicGrid_inv_slot_set)
  show "grid_bits (slot_set g' p v) = grid_bits g'" by (rule grid_bits_slot_set)
qed

lemma reachable_inv: "reachable d g \<Longrightarrow> DynamicGrid_inv g"
proof (induction rule: reachable.induct)
  case reachable_new
  show ?case by (rule DynamicGrid_inv_new)
next
  case (reachable_mutable_value g index g' p)
  show ?case
    by (rule DynamicGrid_mutable_value_Inr(2) [OF reachable_mutable_value.IH reachable_mutable_value.hyps(2)])
next
  case (reachable_write g index g' p v)
  show ?case
    by (rule DynamicGrid_mutable_value_Inr(9) [OF reachable_write.IH reachable_write.hyps(2)])
qed

lemma set_value_result:
  assumes "DynamicGrid_inv g"
  shows "(\<not> addressable index \<and> set_value d g index v = Inl CheckFailed) \<or>
    (addressable index \<and>
     (\<exists>g'. set_value d g index v = Inr g' \<and> DynamicGrid_inv g' \<and>
        (\<forall>index'. DynamicGrid_value d g' index' =
           (if index' = index then v else DynamicGrid_value d g index'))))"
proof (cases "DynamicGrid_mutable_value d g index")
  case (Inl e)
  then show ?thesis
    using DynamicGrid_mutable_value_result [OF assms, of index d]
    by (auto simp: set_value_def)
next
  case (Inr r)
  obtain g' p where r: "r = (g', p)" by (cases r)
  note m = Inr [unfolded r]
  show ?thesis
    using DynamicGrid_mutable_value_Inr(1,8,9) [OF assms m]
    by (simp add: set_value_def m)
qed

lemma set_values_other:
  assumes "DynamicGrid_inv g" "set_values d g ws = Inr g'" "index \<notin> fst ` set ws"
  shows "DynamicGrid_value d g' index = DynamicGrid_value d g index"
  using assms
proof (induction ws arbitrary: g)
  case Nil
  then show ?case by simp
next
  case (Cons w ws)
  from Cons.prems(2) obtain g1 where w: "set_value d g (fst w) (snd w) = Inr g1"
    and ws: "set_values d g1 ws = Inr g'"
    by (auto split: sum.splits)
  from set_value_result [OF Cons.prems(1), of "fst w" d "snd w"] w
  have inv1: "DynamicGrid_inv g1"
    and all: "\<forall>index'. DynamicGrid_value d g1 index' =
      (if index' = fst w then snd w else DynamicGrid_value d g index')"
    by auto
  have "index \<noteq> fst w" using Cons.prems(3) by auto
  then have v1: "DynamicGrid_value d g1 index = DynamicGrid_value d g index"
    using all [rule_format, of index] by simp
  have "index \<notin> fst ` set ws" using Cons.prems(3) by auto
  then show ?case using Cons.IH [OF inv1 ws] v1 by simp
qed

lemma set_values_succeeds:
  assumes "DynamicGrid_inv g" "\<forall>w \<in> set ws. addressable (fst w)"
  shows "\<exists>g'. set_values d g ws = Inr g' \<and> DynamicGrid_inv g'"
  using assms
proof (induction ws arbitrary: g)
  case Nil
  then show ?case by simp
next
  case (Cons w ws)
  have "addressable (fst w)" using Cons.prems(2) by simp
  with set_value_result [OF Cons.prems(1), of "fst w" d "snd w"]
  obtain g1 where w: "set_value d g (fst w) (snd w) = Inr g1" and inv1: "DynamicGrid_inv g1"
    by auto
  have "\<forall>w \<in> set ws. addressable (fst w)" using Cons.prems(2) by simp
  from Cons.IH [OF inv1 this] show ?case by (simp add: w)
qed

text \<open>
  C1. Let \<open>index\<close> be a voxel index in the addressable range of a reachable grid. Writing
  \<open>v\<close> through \<^verbatim>\<open>mutable_value(index)\<close> succeeds, and \<^verbatim>\<open>value(index)\<close> then returns \<open>v\<close>;
  it still returns \<open>v\<close> after any sequence of later writes to other indices that runs to
  its end, whether or not these writes grow the grid. A call of \<^verbatim>\<open>Grow\<close> leaves the value
  read at every signed index unchanged. The statement holds for every \<open>v\<close>, the default
  value included.
\<close>

theorem write_then_read:
  assumes "reachable d g" and "addressable index"
  shows "\<exists>g1. set_value d g index v = Inr g1 \<and> DynamicGrid_value d g1 index = v \<and>
      (\<forall>later g2. index \<notin> fst ` set later \<and> set_values d g1 later = Inr g2 \<longrightarrow>
         DynamicGrid_value d g2 index = v) \<and>
      (\<forall>g2 i. Grow g = Inr g2 \<longrightarrow> DynamicGrid_value d g2 i = DynamicGrid_value d g i)"
proof -
  have inv: "DynamicGrid_inv g" using assms(1) by (rule reachable_inv)
  from set_value_result [OF inv, of index d v] assms(2)
  obtain g1 where w: "set_value d g index v = Inr g1" and inv1: "DynamicGrid_inv g1"
    and val: "\<forall>index'. DynamicGrid_value d g1 index' =
      (if index' = index then v else DynamicGrid_value d g index')"
    by auto
  have v1: "DynamicGrid_value d g1 index = v" using val [rule_format, of index] by simp
  have "DynamicGrid_value d g2 index = v"
    if "index \<notin> fst ` set later \<and> set_values d g1 later = Inr g2" for later g2
    using set_values_other [OF inv1, of d later g2 index] that v1 by simp
  moreover have "DynamicGrid_value d g2 i = DynamicGrid_value d g i" if "Grow g = Inr g2" for g2 i
    using inv that by (rule Grow_value)
  ultimately show ?thesis using w v1 by blast
qed

theorem write_then_read_witness:
  "reachable (None :: nat option) DynamicGrid_new \<and> addressable (1000, 0, 0) \<and>
   (\<exists>g1 g2 g3. set_value None DynamicGrid_new (1000, 0, 0) (Some (7 :: nat)) = Inr g1 \<and>
      ((1000, 0, 0) :: Array3i) \<notin>
        fst ` set [((- 1000, 0, 0), Some (3 :: nat)), ((5000, - 8192, 8191), Some 4)] \<and>
      set_values None g1 [((- 1000, 0, 0), Some 3), ((5000, - 8192, 8191), Some 4)] = Inr g2 \<and>
      DynamicGrid_value None g2 (1000, 0, 0) = Some 7 \<and>
      Grow (DynamicGrid_new :: nat option DynamicGrid) = Inr g3 \<and>
      DynamicGrid_value None g3 (1000, 0, 0) = DynamicGrid_value None DynamicGrid_new (1000, 0, 0))"
proof -
  let ?later = "[((- 1000, 0, 0), Some 3), ((5000, - 8192, 8191), Some (4 :: nat))] :: (Array3i \<times> nat option) list"
  have r: "reachable (None :: nat option) DynamicGrid_new" by (rule reachable_new)
  have a: "addressable (1000, 0, 0)" by (simp add: addressable_def)
  from write_then_read [OF r a, of "Some 7"]
  obtain g1 where w: "set_value None DynamicGrid_new (1000, 0, 0) (Some (7 :: nat)) = Inr g1"
    and later: "\<And>later g2. (1000, 0, 0) \<notin> fst ` set later \<and> set_values None g1 later = Inr g2 \<Longrightarrow>
      DynamicGrid_value None g2 (1000, 0, 0) = Some 7"
    and grow: "\<And>g2 i. Grow (DynamicGrid_new :: nat option DynamicGrid) = Inr g2 \<Longrightarrow>
      DynamicGrid_value None g2 i = DynamicGrid_value None DynamicGrid_new i"
    by blast
  have inv1: "DynamicGrid_inv g1"
    using set_value_result [OF DynamicGrid_inv_new, of "(1000, 0, 0)" "None :: nat option" "Some 7"] w
    by auto
  have "\<forall>w \<in> set ?later. addressable (fst w)" by (simp add: addressable_def)
  from set_values_succeeds [OF inv1 this, of None]
  obtain g2 where ws: "set_values None g1 ?later = Inr g2" by blast
  have n: "(1000, 0, 0) \<notin> fst ` set ?later" by simp
  obtain g3 where g: "Grow (DynamicGrid_new :: nat option DynamicGrid) = Inr g3"
    using Grow_eq [of "DynamicGrid_new :: nat option DynamicGrid"] by (simp add: DynamicGrid_new_def)
  show ?thesis
    using r a w n ws later [OF conjI [OF n ws]] g grow [OF g, of "(1000, 0, 0)"] by blast
qed

text \<open>The range test of \<^verbatim>\<open>value\<close> and \<^verbatim>\<open>mutable_value\<close>: the grid covers an index when no
  coefficient of the shifted index, read as unsigned, reaches \<^verbatim>\<open>grid_size()\<close>.\<close>

definition covers :: "'v DynamicGrid \<Rightarrow> Array3i \<Rightarrow> bool" where
  "covers g index =
     (\<not> any_unsigned_ge (array_plus index (signed_drop_bit 1 (grid_size g))) (grid_size g))"

lemma covers_iff: "grid_bits g \<le> 8 \<Longrightarrow> covers g index = in_range (grid_bits g) index"
  by (simp only: covers_def out_of_range_iff simp_thms)

lemma covers_addressable: "DynamicGrid_inv g \<Longrightarrow> covers g index \<Longrightarrow> addressable index"
  using in_range_addressable [of "grid_bits g" index]
  by (simp add: covers_iff DynamicGrid_inv_def)

lemma DynamicGrid_value_outside:
  "DynamicGrid_inv g \<Longrightarrow> \<not> covers g index \<Longrightarrow> DynamicGrid_value d g index = d"
  by (simp add: covers_iff DynamicGrid_inv_def DynamicGrid_value_eq)

lemma DynamicGrid_value_new: "DynamicGrid_value d DynamicGrid_new index = d"
proof (cases "in_range 1 index")
  case True
  have "valid_slot 1 (locate 1 index)" using True by (rule valid_locate)
  then have "fst (locate 1 index) < 8" by (simp add: valid_slot_def case_prod_unfold)
  then have "cell_at d DynamicGrid_new (locate 1 index) = d"
    by (simp add: cell_at_fst_snd DynamicGrid_new_def)
  then show ?thesis using True by (simp add: DynamicGrid_value_eq DynamicGrid_new_def)
next
  case False
  then show ?thesis by (simp add: DynamicGrid_value_eq DynamicGrid_new_def)
qed

lemma grow_steps_in_range:
  assumes "grid_bits g \<le> 8" "in_range (grid_bits g) index"
  shows "grow_steps g index = 0"
  apply (subst grow_steps.simps)
  apply (simp only: Let_def out_of_range_iff [OF assms(1)] assms(2) simp_thms if_False)
  done

lemma grow_steps_out_of_range:
  assumes "grid_bits g \<le> 8" "\<not> in_range (grid_bits g) index"
  shows "grow_steps g index = (case Grow g of Inl e \<Rightarrow> 0 | Inr g' \<Rightarrow> Suc (grow_steps g' index))"
  apply (subst grow_steps.simps)
  apply (simp only: Let_def out_of_range_iff [OF assms(1)] assms(2) simp_thms if_True)
  done


lemma grow_steps_bits:
  assumes "DynamicGrid_inv g"
  shows "grow_steps g index \<le> 8 - grid_bits g \<and>
    (\<forall>g' p. DynamicGrid_mutable_value d g index = Inr (g', p) \<longrightarrow>
       grid_bits g' = grid_bits g + grow_steps g index)"
  using assms
proof (induction "8 - grid_bits g" arbitrary: g)
  case 0
  from 0(1,2) have b: "grid_bits g = 8" by (simp add: DynamicGrid_inv_def)
  show ?case
  proof (cases "in_range 8 index")
    case True
    then show ?thesis
      using b DynamicGrid_mutable_value_in_range [of g index d] grow_steps_in_range [of g index]
      by (simp add: grid_bits_construct)
  next
    case False
    then show ?thesis
      using b DynamicGrid_mutable_value_out_of_range [of g index d] Grow_fails [of g]
        grow_steps_out_of_range [of g index]
      by simp
  qed
next
  case (Suc n)
  from Suc.prems Suc.hyps(2) have b: "1 \<le> grid_bits g" "grid_bits g < 8" "grid_bits g \<le> 8"
    by (simp_all add: DynamicGrid_inv_def)
  show ?case
  proof (cases "in_range (grid_bits g) index")
    case True
    then show ?thesis
      using b DynamicGrid_mutable_value_in_range [of g index d] grow_steps_in_range [of g index]
      by (simp add: grid_bits_construct)
  next
    case False
    let ?g1 = "\<lparr>grid_bits = Suc (grid_bits g),
      grid_meta_cells = grow_cells (grid_bits g) (grid_meta_cells g)\<rparr>"
    have grow: "Grow g = Inr ?g1" using b by (intro Grow_eq)
    have inv1: "DynamicGrid_inv ?g1" using Suc.prems grow by (rule Grow_inv)
    have step: "DynamicGrid_mutable_value d g index = DynamicGrid_mutable_value d ?g1 index"
      using DynamicGrid_mutable_value_out_of_range [OF b(3) False, of d] by (simp add: grow)
    have steps: "grow_steps g index = Suc (grow_steps ?g1 index)"
      using grow_steps_out_of_range [OF b(3) False] by (simp add: grow)
    have n: "n = 8 - grid_bits ?g1" using Suc.hyps(2) by simp
    note ih = Suc.hyps(1) [OF n inv1]
    have 1: "grow_steps g index \<le> 8 - grid_bits g"
      using ih [THEN conjunct1] b by (simp add: steps)
    have 2: "grid_bits g' = grid_bits g + grow_steps g index"
      if "DynamicGrid_mutable_value d g index = Inr (g', p)" for g' p
    proof -
      from that have "DynamicGrid_mutable_value d ?g1 index = Inr (g', p)" by (simp only: step)
      with ih have "grid_bits g' = grid_bits ?g1 + grow_steps ?g1 index" by blast
      then show ?thesis by (simp add: steps)
    qed
    show ?thesis using 1 2 by blast
  qed
qed

lemma DynamicGrid_mutable_value_fails:
  "DynamicGrid_inv g \<Longrightarrow> \<not> addressable index \<Longrightarrow>
   DynamicGrid_mutable_value d g index = Inl CheckFailed"
  using DynamicGrid_mutable_value_result [of g index d] by simp

lemma DynamicGrid_mutable_value_succeeds:
  assumes "DynamicGrid_inv g" "addressable index"
  shows "\<exists>g' p. DynamicGrid_mutable_value d g index = Inr (g', p)"
proof -
  from DynamicGrid_mutable_value_result [OF assms(1), of index d] assms(2)
  obtain g' where "DynamicGrid_mutable_value d g index =
      Inr (construct_cell d g' (locate (grid_bits g') index), locate (grid_bits g') index)"
    by blast
  then show ?thesis by blast
qed

lemma not_addressable_not_covers:
  "DynamicGrid_inv g \<Longrightarrow> \<not> addressable index \<Longrightarrow> \<not> covers g index"
  using covers_addressable by blast

text \<open>
  C3. On every reachable grid a write to \<open>(8191, 0, 0)\<close> succeeds and a write to
  \<open>(8192, 0, 0)\<close> ends in the fatal check of \<^verbatim>\<open>Grow\<close>, as does a write to any index outside
  the addressable range, that is, any index no grid of at most 8 bits covers. A read at
  such an index returns the default value; \<^verbatim>\<open>value\<close> has no error result.
\<close>

theorem write_domain_bounds:
  assumes "reachable d g"
  shows "(\<exists>g' p. DynamicGrid_mutable_value d g (8191, 0, 0) = Inr (g', p)) \<and>
    DynamicGrid_mutable_value d g (8192, 0, 0) = Inl CheckFailed \<and>
    (\<forall>index. \<not> addressable index \<longrightarrow>
       DynamicGrid_mutable_value d g index = Inl CheckFailed \<and>
       DynamicGrid_value d g index = d)"
proof -
  have inv: "DynamicGrid_inv g" using assms by (rule reachable_inv)
  have "addressable (8191, 0, 0)" by (simp add: addressable_def)
  then have 1: "\<exists>g' p. DynamicGrid_mutable_value d g (8191, 0, 0) = Inr (g', p)"
    by (rule DynamicGrid_mutable_value_succeeds [OF inv])
  have "\<not> addressable (8192, 0, 0)" by (simp add: addressable_def)
  then have 2: "DynamicGrid_mutable_value d g (8192, 0, 0) = Inl CheckFailed"
    by (rule DynamicGrid_mutable_value_fails [OF inv])
  have 3: "DynamicGrid_mutable_value d g index = Inl CheckFailed \<and> DynamicGrid_value d g index = d"
    if "\<not> addressable index" for index
    using DynamicGrid_mutable_value_fails [OF inv that]
      DynamicGrid_value_outside [OF inv not_addressable_not_covers [OF inv that]]
    by simp
  show ?thesis using 1 2 3 by blast
qed

theorem write_domain_bounds_witness:
  "reachable (None :: nat option) DynamicGrid_new \<and>
   (\<exists>g' p. DynamicGrid_mutable_value (None :: nat option) DynamicGrid_new (8191, 0, 0) = Inr (g', p)) \<and>
   DynamicGrid_mutable_value (None :: nat option) DynamicGrid_new (8192, 0, 0) = Inl CheckFailed \<and>
   \<not> addressable (5, - 8193, 0) \<and>
   DynamicGrid_mutable_value (None :: nat option) DynamicGrid_new (5, - 8193, 0) = Inl CheckFailed \<and>
   DynamicGrid_value (None :: nat option) DynamicGrid_new (5, - 8193, 0) = None"
proof -
  have n: "\<not> addressable (5, - 8193, 0)" by (simp add: addressable_def)
  show ?thesis
    using write_domain_bounds [OF reachable_new, of "None :: nat option"] n reachable_new [of "None :: nat option"]
    by blast
qed

text \<open>
  C9. \<^verbatim>\<open>DynamicGrid::mutable_value\<close> is a total function: its recursion is accepted with the
  measure \<open>9 - bits\<close>. From a grid whose bits are between 1 and 8 it grows the grid at most
  \<open>8 - bits\<close> times; then it either returns a slot in a grid that covers the index, grown
  exactly that many times, or it ends in the check of \<^verbatim>\<open>Grow\<close>. Each growth adds one bit,
  doubles the grid size, keeps every covered index covered and covers an index more.
\<close>

theorem mutable_value_terminates:
  assumes "DynamicGrid_inv g"
  shows "grow_steps g index \<le> 8 - grid_bits g \<and>
    (DynamicGrid_mutable_value d g index = Inl CheckFailed \<or>
     (\<exists>g' p. DynamicGrid_mutable_value d g index = Inr (g', p) \<and>
        grid_bits g' = grid_bits g + grow_steps g index \<and> covers g' index)) \<and>
    (\<forall>g'. Grow g = Inr g' \<longrightarrow>
       grid_bits g' = grid_bits g + 1 \<and> grid_size g' = 2 * grid_size g \<and>
       (\<forall>i. covers g i \<longrightarrow> covers g' i) \<and> (\<exists>i. covers g' i \<and> \<not> covers g i))"
proof -
  have b: "1 \<le> grid_bits g" "grid_bits g \<le> 8" using assms by (simp_all add: DynamicGrid_inv_def)
  note steps = grow_steps_bits [OF assms, of index d]
  have res: "DynamicGrid_mutable_value d g index = Inl CheckFailed \<or>
     (\<exists>g' p. DynamicGrid_mutable_value d g index = Inr (g', p) \<and>
        grid_bits g' = grid_bits g + grow_steps g index \<and> covers g' index)"
  proof (cases "DynamicGrid_mutable_value d g index")
    case (Inl e)
    then show ?thesis using DynamicGrid_mutable_value_result [OF assms, of index d] by auto
  next
    case (Inr r)
    obtain g' p where r: "r = (g', p)" by (cases r)
    note m = Inr [unfolded r]
    have "grid_bits g' \<le> 8"
      using DynamicGrid_mutable_value_Inr(2) [OF assms m] by (simp add: DynamicGrid_inv_def)
    then have "covers g' index"
      using DynamicGrid_mutable_value_Inr(4) [OF assms m] by (simp add: covers_iff)
    then show ?thesis using steps m by blast
  qed
  have grow: "grid_bits g' = grid_bits g + 1 \<and> grid_size g' = 2 * grid_size g \<and>
       (\<forall>i. covers g i \<longrightarrow> covers g' i) \<and> (\<exists>i. covers g' i \<and> \<not> covers g i)"
    if "Grow g = Inr g'" for g'
  proof -
    have b': "grid_bits g' = Suc (grid_bits g)" "grid_bits g' \<le> 8"
      using Grow_bits [OF that] by simp_all
    have size: "grid_size g' = 2 * grid_size g"
      by (simp add: grid_size_def b' push_bit_eq_mult)
    have keep: "covers g' i" if "covers g i" for i
      using that b b' in_range_Suc [of "grid_bits g" i] by (simp add: covers_iff)
    let ?h = "32 * 2 ^ grid_bits g :: nat"
    define w :: i32 where "w = of_nat ?h"
    have p: "(2::nat) ^ grid_bits g \<le> 256" using b(2) by (rule pow_le_256)
    have "shifted_nat (grid_bits g) w = unat (of_nat (?h + ?h) :: i32)"
      unfolding shifted_nat_def w_def by (simp only: of_nat_add)
    also have "\<dots> = ?h + ?h" using p by (intro unat_of_nat_small) simp
    finally have s: "shifted_nat (grid_bits g) w = 64 * 2 ^ grid_bits g" by simp
    have "shifted_nat (Suc (grid_bits g)) w = unat (of_nat (?h + 2 * ?h) :: i32)"
      unfolding shifted_nat_def w_def by (simp only: of_nat_add power_Suc mult.left_commute [of 32 2])
    also have "\<dots> = ?h + 2 * ?h" using p by (intro unat_of_nat_small) simp
    finally have s': "shifted_nat (Suc (grid_bits g)) w = 96 * 2 ^ grid_bits g" by simp
    have "covers g' (w, w, w) \<and> \<not> covers g (w, w, w)"
      using b b' by (simp add: covers_iff in_range_def s s')
    then show ?thesis using b' size keep by auto
  qed
  show ?thesis using steps res grow by blast
qed

theorem mutable_value_terminates_witness:
  "DynamicGrid_inv (DynamicGrid_new :: nat option DynamicGrid) \<and>
   grow_steps (DynamicGrid_new :: nat option DynamicGrid) (1000, 0, 0) \<le> 8 - 1 \<and>
   (\<exists>g'. Grow (DynamicGrid_new :: nat option DynamicGrid) = Inr g' \<and> grid_bits g' = 2 \<and>
      grid_size g' = 2 * grid_size (DynamicGrid_new :: nat option DynamicGrid) \<and>
      covers (DynamicGrid_new :: nat option DynamicGrid) (63, - 64, 0) \<and> covers g' (63, - 64, 0))"
proof -
  let ?g = "DynamicGrid_new :: nat option DynamicGrid"
  obtain g' where g: "Grow ?g = Inr g'"
    using Grow_eq [of ?g] by (simp add: DynamicGrid_new_def)
  have c: "covers ?g (63, - 64, 0)"
    by (simp add: covers_def DynamicGrid_new_def grid_size_def NestedGrid_grid_size_def
        FlatGrid_grid_size_def array_plus_def any_unsigned_ge_def)
  show ?thesis
    using mutable_value_terminates [OF DynamicGrid_inv_new, of "(1000, 0, 0)" "None :: nat option"]
      g c DynamicGrid_inv_new [where 'a="nat option"]
    by (auto simp: DynamicGrid_new_def)
qed

lemma sint_word_of_int_small:
  assumes "- 8192 \<le> n" "n \<le> 8191"
  shows "sint (word_of_int n :: i32) = n"
proof -
  have "(n + 2147483648) mod 4294967296 = n + 2147483648"
    using assms by (intro mod_pos_pos_trivial) simp_all
  then show ?thesis using int_word_sint [of n, where 'a=32] by simp
qed

lemma addressable_word_of_int:
  assumes "- 8192 \<le> a \<and> a \<le> 8191" "- 8192 \<le> b \<and> b \<le> 8191" "- 8192 \<le> c \<and> c \<le> 8191"
  shows "addressable (word_of_int a, word_of_int b, word_of_int c)"
  using assms by (simp add: addressable_def sint_word_of_int_small)

text \<open>The reachable grids with their history: \<open>written d W g\<close> when \<open>g\<close> is reached from the
  new grid by calls of \<^verbatim>\<open>mutable_value\<close> of which those at the indices of \<open>W\<close>, and no
  others, were followed by a write through the pointer.\<close>

inductive written :: "'v \<Rightarrow> Array3i set \<Rightarrow> 'v DynamicGrid \<Rightarrow> bool" for d :: 'v where
  written_new: "written d {} DynamicGrid_new"
| written_mutable_value:
    "written d W g \<Longrightarrow> DynamicGrid_mutable_value d g index = Inr (g', p) \<Longrightarrow> written d W g'"
| written_write:
    "written d W g \<Longrightarrow> DynamicGrid_mutable_value d g index = Inr (g', p) \<Longrightarrow>
     written d (insert index W) (slot_set g' p v)"

lemma written_reachable: "written d W g \<Longrightarrow> reachable d g"
proof (induction rule: written.induct)
  case written_new
  show ?case by (rule reachable_new)
next
  case (written_mutable_value W g index g' p)
  from written_mutable_value.IH written_mutable_value.hyps(2)
  show ?case by (rule reachable_mutable_value)
next
  case (written_write W g index g' p v)
  from written_write.IH written_write.hyps(2)
  show ?case by (rule reachable_write)
qed

lemma reachable_written: "reachable d g \<Longrightarrow> \<exists>W. written d W g"
proof (induction rule: reachable.induct)
  case reachable_new
  show ?case by (rule exI) (rule written_new)
next
  case (reachable_mutable_value g index g' p)
  then obtain W where "written d W g" by blast
  from this reachable_mutable_value.hyps(2) have "written d W g'"
    by (rule written_mutable_value)
  then show ?case by blast
next
  case (reachable_write g index g' p v)
  then obtain W where "written d W g" by blast
  from this reachable_write.hyps(2) have "written d (insert index W) (slot_set g' p v)"
    by (rule written_write)
  then show ?case by blast
qed

lemma written_default:
  "written d W g \<Longrightarrow> index' \<notin> W \<Longrightarrow> DynamicGrid_value d g index' = d"
proof (induction rule: written.induct)
  case written_new
  show ?case by (rule DynamicGrid_value_new)
next
  case (written_mutable_value W g index g' p)
  have inv: "DynamicGrid_inv g"
    using written_mutable_value.hyps(1) by (intro reachable_inv written_reachable)
  show ?case
    using DynamicGrid_mutable_value_Inr(7) [OF inv written_mutable_value.hyps(2), where index' = index']
      written_mutable_value.IH written_mutable_value.prems
    by simp
next
  case (written_write W g index g' p v)
  have inv: "DynamicGrid_inv g"
    using written_write.hyps(1) by (intro reachable_inv written_reachable)
  show ?case
    using DynamicGrid_mutable_value_Inr(8) [OF inv written_write.hyps(2), where index' = index' and v = v]
      written_write.IH written_write.prems
    by simp
qed

lemma written_addressable: "written d W g \<Longrightarrow> index' \<in> W \<Longrightarrow> addressable index'"
proof (induction rule: written.induct)
  case written_new
  then show ?case by simp
next
  case (written_mutable_value W g index g' p)
  then show ?case by simp
next
  case (written_write W g index g' p v)
  have inv: "DynamicGrid_inv g"
    using written_write.hyps(1) by (intro reachable_inv written_reachable)
  have "addressable index"
    by (rule DynamicGrid_mutable_value_Inr(1) [OF inv written_write.hyps(2)])
  then show ?case using written_write.IH written_write.prems by auto
qed

lemma set_value_written:
  assumes "written d W g" "set_value d g index v = Inr g'"
  shows "written d (insert index W) g'"
proof -
  from assms(2) obtain g1 p where m: "DynamicGrid_mutable_value d g index = Inr (g1, p)"
    and g': "g' = slot_set g1 p v"
    by (auto simp: set_value_def split: sum.splits)
  show ?thesis unfolding g' using assms(1) m by (rule written_write)
qed

lemma set_value_fails:
  "DynamicGrid_inv g \<Longrightarrow> \<not> addressable index \<Longrightarrow> set_value d g index v = Inl CheckFailed"
  by (simp add: set_value_def DynamicGrid_mutable_value_fails)

lemma sint_8192: "sint (word_of_int 8192 :: i32) = 8192"
  by simp

text \<open>
  C2, as stated, fails on the code: the addressable range is \<open>[-8192, 8192)\<close> on each axis,
  so the write to \<open>(8192, 8192, 8192)\<close> on the fresh grid ends in the fatal check.
\<close>

theorem symmetric_addressability_counterexample:
  "DynamicGrid_mutable_value (None :: nat option) DynamicGrid_new (8192, 8192, 8192) =
     Inl CheckFailed"
proof -
  have "\<not> addressable (8192, 8192, 8192)" by (simp add: addressable_def)
  then show ?thesis by (rule DynamicGrid_mutable_value_fails [OF DynamicGrid_inv_new])
qed

text \<open>
  C2, amended. For every \<open>k\<close> with \<open>0 \<le> k \<le> 8192\<close> and every sign combination, on every
  reachable grid a read of \<open>(\<plusminus>k, \<plusminus>k, \<plusminus>k)\<close> returns the default value unless the index has
  been written (on the new grid, and wherever the grid does not cover the index, in
  particular), and \<^verbatim>\<open>value\<close>, a function of the grid alone, returns no grid. A write through
  \<^verbatim>\<open>mutable_value\<close> succeeds and the written value is read back when \<open>k \<le> 8191\<close> and when
  the index is \<open>(-8192, -8192, -8192)\<close>. When \<open>k = 8192\<close> and a component is \<open>+8192\<close> the
  write ends in the fatal check, so that the index is never written and every read of it
  returns the default value.
\<close>

theorem symmetric_addressability:
  assumes "written d W g" "0 \<le> k" "k \<le> 8192"
    and "sx \<in> {1, - 1}" "sy \<in> {1, - 1}" "sz \<in> {1, - 1}"
    and "index = (word_of_int (sx * k), word_of_int (sy * k), word_of_int (sz * k))"
  shows "reachable d g \<and>
    DynamicGrid_value d DynamicGrid_new index = d \<and>
    (\<not> covers g index \<longrightarrow> DynamicGrid_value d g index = d) \<and>
    (index \<notin> W \<longrightarrow> DynamicGrid_value d g index = d) \<and>
    (k \<le> 8191 \<or> (sx = - 1 \<and> sy = - 1 \<and> sz = - 1) \<longrightarrow>
       (\<exists>g'. set_value d g index v = Inr g' \<and> DynamicGrid_value d g' index = v \<and>
          written d (insert index W) g')) \<and>
    (k = 8192 \<and> (sx = 1 \<or> sy = 1 \<or> sz = 1) \<longrightarrow>
       index \<notin> W \<and> DynamicGrid_value d g index = d \<and>
       DynamicGrid_mutable_value d g index = Inl CheckFailed \<and>
       set_value d g index v = Inl CheckFailed)"
proof -
  have r: "reachable d g" using assms(1) by (rule written_reachable)
  then have inv: "DynamicGrid_inv g" by (rule reachable_inv)
  have unwritten: "index \<notin> W \<longrightarrow> DynamicGrid_value d g index = d"
    using written_default [OF assms(1)] by blast
  have ok: "\<exists>g'. set_value d g index v = Inr g' \<and> DynamicGrid_value d g' index = v \<and>
      written d (insert index W) g'"
    if a: "addressable index"
  proof -
    from set_value_result [OF inv, of index d v] a
    obtain g' where w: "set_value d g index v = Inr g'"
      and val: "\<forall>index'. DynamicGrid_value d g' index' =
        (if index' = index then v else DynamicGrid_value d g index')"
      by auto
    have "DynamicGrid_value d g' index = v" using val [rule_format, of index] by simp
    then show ?thesis using w set_value_written [OF assms(1) w] by blast
  qed
  have small: "addressable index" if "k \<le> 8191"
  proof -
    have "- 8192 \<le> s * k \<and> s * k \<le> 8191" if "s \<in> {1, - 1}" for s :: int
      using that assms(2) \<open>k \<le> 8191\<close> by auto
    from addressable_word_of_int [OF this [OF assms(4)] this [OF assms(5)] this [OF assms(6)]]
    show ?thesis by (simp only: assms(7))
  qed
  have low: "addressable index" if "sx = - 1 \<and> sy = - 1 \<and> sz = - 1"
  proof -
    have "- 8192 \<le> - k \<and> - k \<le> 8191" using assms(2,3) by simp
    from addressable_word_of_int [OF this this this]
    show ?thesis using that by (simp add: assms(7))
  qed
  have high: "\<not> addressable index" if "k = 8192 \<and> (sx = 1 \<or> sy = 1 \<or> sz = 1)"
    using that sint_8192 by (auto simp: assms(7) addressable_def)
  have fails: "index \<notin> W \<and> DynamicGrid_value d g index = d \<and>
       DynamicGrid_mutable_value d g index = Inl CheckFailed \<and>
       set_value d g index v = Inl CheckFailed"
    if "k = 8192 \<and> (sx = 1 \<or> sy = 1 \<or> sz = 1)"
  proof -
    have n: "\<not> addressable index" using that by (rule high)
    then have "index \<notin> W" using written_addressable [OF assms(1)] by blast
    then show ?thesis
      using unwritten DynamicGrid_mutable_value_fails [OF inv n] set_value_fails [OF inv n]
      by blast
  qed
  have "DynamicGrid_value d DynamicGrid_new index = d" by (rule DynamicGrid_value_new)
  moreover have "\<not> covers g index \<longrightarrow> DynamicGrid_value d g index = d"
    using DynamicGrid_value_outside [OF inv] by blast
  moreover have "k \<le> 8191 \<or> (sx = - 1 \<and> sy = - 1 \<and> sz = - 1) \<longrightarrow>
       (\<exists>g'. set_value d g index v = Inr g' \<and> DynamicGrid_value d g' index = v \<and>
          written d (insert index W) g')"
    using ok small low by blast
  moreover have "k = 8192 \<and> (sx = 1 \<or> sy = 1 \<or> sz = 1) \<longrightarrow>
       index \<notin> W \<and> DynamicGrid_value d g index = d \<and>
       DynamicGrid_mutable_value d g index = Inl CheckFailed \<and>
       set_value d g index v = Inl CheckFailed"
    using fails by blast
  ultimately show ?thesis using r unwritten by blast
qed

theorem symmetric_addressability_witness:
  "\<exists>g. set_value (None :: nat option) DynamicGrid_new (1, 1, 1) (Some 1) = Inr g \<and>
     written None {(1, 1, 1)} g \<and>
     DynamicGrid_value None g (8191, - 8191, 8191) = None \<and>
     (\<exists>g'. set_value None g (8191, - 8191, 8191) (Some 2) = Inr g' \<and>
        DynamicGrid_value None g' (8191, - 8191, 8191) = Some 2) \<and>
     DynamicGrid_value None g (8192, - 8192, 8192) = None \<and>
     set_value None g (8192, - 8192, 8192) (Some 2) = Inl CheckFailed \<and>
     (\<exists>g'. set_value None g (- 8192, - 8192, - 8192) (Some 3) = Inr g' \<and>
        DynamicGrid_value None g' (- 8192, - 8192, - 8192) = Some 3)"
proof -
  define i1 :: Array3i where "i1 = (1, 1, 1)"
  define i2 :: Array3i where "i2 = (8191, - 8191, 8191)"
  define i3 :: Array3i where "i3 = (8192, - 8192, 8192)"
  define i4 :: Array3i where "i4 = (- 8192, - 8192, - 8192)"
  have a: "addressable i1" by (simp add: i1_def addressable_def)
  from set_value_result [OF DynamicGrid_inv_new, of i1 "None :: nat option" "Some 1"] a
  obtain g where w: "set_value (None :: nat option) DynamicGrid_new i1 (Some 1) = Inr g"
    by auto
  from set_value_written [OF written_new w] have h: "written None {i1} g" .
  have e2: "i2 = (word_of_int (1 * 8191), word_of_int (- 1 * 8191), word_of_int (1 * 8191))"
    and e3: "i3 = (word_of_int (1 * 8192), word_of_int (- 1 * 8192), word_of_int (1 * 8192))"
    and e4: "i4 = (word_of_int (- 1 * 8192), word_of_int (- 1 * 8192), word_of_int (- 1 * 8192))"
    by (simp_all add: i2_def i3_def i4_def)
  have s: "(1 :: int) \<in> {1, - 1}" "(- 1 :: int) \<in> {1, - 1}" by simp_all
  have n: "i2 \<notin> {i1}" by (simp add: i1_def i2_def)
  have t2: "DynamicGrid_value None g i2 = None \<and>
      (\<exists>g'. set_value None g i2 (Some 2) = Inr g' \<and> DynamicGrid_value None g' i2 = Some 2)"
    using symmetric_addressability [OF h _ _ s(1) s(2) s(1) e2, of "Some 2"] n by simp blast
  have t3: "DynamicGrid_value None g i3 = None \<and> set_value None g i3 (Some 2) = Inl CheckFailed"
    using symmetric_addressability [OF h _ _ s(1) s(2) s(1) e3, of "Some 2"] by simp
  have t4: "\<exists>g'. set_value None g i4 (Some 3) = Inr g' \<and> DynamicGrid_value None g' i4 = Some 3"
    using symmetric_addressability [OF h _ _ s(2) s(2) s(2) e4, of "Some 3"] by simp blast
  show ?thesis
    using w h t2 t3 t4 unfolding i1_def i2_def i3_def i4_def by blast
qed

section \<open>HybridGridBase\<close>

text \<open>
  Single precision values are modelled by the real numbers they denote (finite values
  only). The operations of Eigen that round are parameters of the model: the division of
  two floats, the norm of a point and the application of a pose (cast to single
  precision) to a point. \<open>set_order\<close> is the order in which a \<^verbatim>\<open>boost::unordered_set\<close> of
  pointers is iterated.
\<close>

type_synonym point = "real \<times> real \<times> real"

record 'pose externals =
  fl_div :: "real \<Rightarrow> real \<Rightarrow> real"
  fl_norm :: "point \<Rightarrow> real"
  fl_apply :: "'pose \<Rightarrow> point \<Rightarrow> point"
  set_order :: "nat set \<Rightarrow> nat list"

text \<open>\<^verbatim>\<open>std::lround\<close> of the C library rounds to the nearest integer, halfway cases away from
  zero. \<^verbatim>\<open>RoundToInt\<close> converts its \<^verbatim>\<open>long\<close> result to \<^verbatim>\<open>int\<close>, which keeps the low 32 bits.\<close>

definition lround :: "real \<Rightarrow> int" where
  "lround n = (if 0 \<le> n then \<lfloor>n + 1 / 2\<rfloor> else \<lceil>n - 1 / 2\<rceil>)"

definition RoundToInt :: "real \<Rightarrow> i32" where
  "RoundToInt n = word_of_int (lround n)"

definition GetCellIndex :: "('pose, 'more) externals_scheme \<Rightarrow> real \<Rightarrow> point \<Rightarrow> Array3i" where
  "GetCellIndex E resolution point = (case point of (x, y, z) \<Rightarrow>
     (RoundToInt (fl_div E x resolution), RoundToInt (fl_div E y resolution),
      RoundToInt (fl_div E z resolution)))"

text \<open>The operations in exact arithmetic, with translations as poses: what single precision
  computes wherever the exact result is representable.\<close>

definition exact_ops :: "point externals" where
  "exact_ops =
     \<lparr>fl_div = (/),
      fl_norm = (\<lambda>(x, y, z). sqrt (x * x + y * y + z * z)),
      fl_apply = (\<lambda>(tx, ty, tz) (x, y, z). (x + tx, y + ty, z + tz)),
      set_order = sorted_list_of_set\<rparr>"









section \<open>HybridGridImpl\<close>

text \<open>
  A \<^verbatim>\<open>PointCloudPtr\<close> is a shared pointer: \<open>None\<close> for the null pointer, or the address of a
  cloud. The clouds live in a store, a list indexed by address; \<^verbatim>\<open>new PointCloud\<close> appends an
  empty cloud and returns its address. The state is the store together with the grid of
  the \<^verbatim>\<open>HybridGridImpl\<close> and its resolution.
\<close>

type_synonym PointCloudPtr = "nat option"

record world =
  clouds :: "point list list"
  grid :: "PointCloudPtr DynamicGrid"
  resolution :: real

definition kDist :: real where
  "kDist = 100"

text \<open>The first loop of \<^verbatim>\<open>GetSurroundedCloud\<close>: the set \<^verbatim>\<open>inserted_grids\<close> after the scan.\<close>

definition surround_step ::
  "('pose, 'more) externals_scheme \<Rightarrow> world \<Rightarrow> 'pose \<Rightarrow> point \<Rightarrow> nat set \<Rightarrow> nat set" where
  "surround_step E w pose point inserted_grids =
     (if fl_norm E point > kDist then inserted_grids
      else
        let new_point = fl_apply E pose point;
            cloud_in_grid = DynamicGrid_value None (grid w) (GetCellIndex E (resolution w) new_point)
        in case cloud_in_grid of
             None \<Rightarrow> inserted_grids
           | Some a \<Rightarrow> insert a inserted_grids)"

definition surround_grids ::
  "('pose, 'more) externals_scheme \<Rightarrow> world \<Rightarrow> 'pose \<Rightarrow> point list \<Rightarrow> nat set" where
  "surround_grids E w pose scan = fold (surround_step E w pose) scan {}"

text \<open>\<^verbatim>\<open>GetSurroundedCloud\<close>. The scan is a pointer to a cloud of its own (not a cloud of the
  grid): \<open>None\<close> for the null pointer, which the function dereferences, or its points. The
  result is the state after the call and the address of the new cloud.\<close>

definition GetSurroundedCloud ::
  "('pose, 'more) externals_scheme \<Rightarrow> world \<Rightarrow> point list option \<Rightarrow> 'pose \<Rightarrow>
   error + (world \<times> nat)" where
  "GetSurroundedCloud E w scan pose =
     (case scan of
        None \<Rightarrow> Inl NullPointer
      | Some points \<Rightarrow>
          let inserted_grids = surround_grids E w pose points;
              cloud_surround = length (clouds w);
              content = fold (\<lambda>cloud_in_grid acc. acc @ clouds w ! cloud_in_grid)
                          (set_order E inserted_grids) []
          in Inr (w\<lparr>clouds := clouds w @ [content]\<rparr>, cloud_surround))"

text \<open>The first loop of \<^verbatim>\<open>InsertScan\<close>, for one point: the cell is looked up with
  \<^verbatim>\<open>mutable_value\<close>, a null pointer in it is reset to a new cloud, and the point is appended.
  Reading through a pointer that addresses no cell is the error \<open>DanglingPointer\<close>.\<close>

definition insert_point ::
  "('pose, 'more) externals_scheme \<Rightarrow> world \<Rightarrow> point \<Rightarrow> error + world" where
  "insert_point E w point =
     (case DynamicGrid_mutable_value None (grid w) (GetCellIndex E (resolution w) point) of
        Inl e \<Rightarrow> Inl e
      | Inr (g', p) \<Rightarrow>
          (case slot_get g' p of
             None \<Rightarrow> Inl DanglingPointer
           | Some None \<Rightarrow>
               Inr (w\<lparr>clouds := clouds w @ [[point]],
                      grid := slot_set g' p (Some (length (clouds w)))\<rparr>)
           | Some (Some a) \<Rightarrow>
               Inr (w\<lparr>clouds := (clouds w)[a := clouds w ! a @ [point]], grid := g'\<rparr>)))"

fun insert_points ::
  "('pose, 'more) externals_scheme \<Rightarrow> world \<Rightarrow> point list \<Rightarrow> error + world" where
  "insert_points E w [] = Inr w"
| "insert_points E w (point # points) =
     (case insert_point E w point of
        Inl e \<Rightarrow> Inl e
      | Inr w' \<Rightarrow> insert_points E w' points)"

text \<open>The second loop of \<^verbatim>\<open>InsertScan\<close>, and the third, which filters every cloud of the set
  in place.\<close>

definition scan_grids ::
  "('pose, 'more) externals_scheme \<Rightarrow> world \<Rightarrow> point list \<Rightarrow> nat set" where
  "scan_grids E w scan =
     fold (\<lambda>point inserted_grids.
             case DynamicGrid_value None (grid w) (GetCellIndex E (resolution w) point) of
               None \<Rightarrow> inserted_grids
             | Some a \<Rightarrow> insert a inserted_grids)
       scan {}"

definition filter_cloud :: "(point list \<Rightarrow> point list) \<Rightarrow> nat \<Rightarrow> world \<Rightarrow> world" where
  "filter_cloud flt a w = w\<lparr>clouds := (clouds w)[a := flt (clouds w ! a)]\<rparr>"

definition InsertScan ::
  "('pose, 'more) externals_scheme \<Rightarrow> world \<Rightarrow> point list option \<Rightarrow>
   (point list \<Rightarrow> point list) \<Rightarrow> error + world" where
  "InsertScan E w scan flt =
     (case scan of
        None \<Rightarrow> Inl NullPointer
      | Some points \<Rightarrow>
          if points = [] then Inr w
          else
            (case insert_points E w points of
               Inl e \<Rightarrow> Inl e
             | Inr w' \<Rightarrow>
                 Inr (fold (filter_cloud flt) (set_order E (scan_grids E w' points)) w')))"

text \<open>The constructor: a new grid and no cloud.\<close>

definition HybridGridImpl_new :: "real \<Rightarrow> world" where
  "HybridGridImpl_new r = \<lparr>clouds = [], grid = DynamicGrid_new, resolution = r\<rparr>"

text \<open>An iteration order of sets enumerates every finite set without repetition.\<close>

definition order_ok :: "('pose, 'more) externals_scheme \<Rightarrow> bool" where
  "order_ok E = (\<forall>S. finite S \<longrightarrow> set (set_order E S) = S \<and> distinct (set_order E S))"

lemma order_ok_exact_ops: "order_ok exact_ops"
  by (simp add: order_ok_def exact_ops_def)

lemma order_ok_empty: "order_ok E \<Longrightarrow> set_order E {} = []"
proof -
  assume "order_ok E"
  then have "set (set_order E {}) = {}" unfolding order_ok_def by blast
  then show ?thesis by simp
qed

lemma fold_surround_step:
  "fold (surround_step E w pose) scan S =
     S \<union> {a. \<exists>p \<in> set scan. fl_norm E p \<le> 100 \<and>
       DynamicGrid_value None (grid w)
         (GetCellIndex E (resolution w) (fl_apply E pose p)) = Some a}"
proof (induction scan arbitrary: S)
  case Nil
  then show ?case by simp
next
  case (Cons p scan)
  show ?case
    unfolding fold_Cons comp_def Cons.IH
    by (auto simp: surround_step_def kDist_def Let_def split: option.splits)
qed

lemma surround_grids_filter:
  "surround_grids E w pose (filter (\<lambda>p. fl_norm E p \<le> 100) scan) = surround_grids E w pose scan"
  unfolding surround_grids_def fold_surround_step by auto

lemma fold_append_clouds:
  "fold (\<lambda>cloud_in_grid acc. acc @ cs ! cloud_in_grid) as acc0 =
     acc0 @ concat (map (\<lambda>a. cs ! a) as)"
  by (induction as arbitrary: acc0) simp_all

lemma finite_surround_grids: "finite (surround_grids E w pose scan)"
proof -
  have "surround_grids E w pose scan \<subseteq>
      (\<lambda>p. the (DynamicGrid_value None (grid w)
         (GetCellIndex E (resolution w) (fl_apply E pose p)))) ` set scan"
    unfolding surround_grids_def fold_surround_step by force
  then show ?thesis by (rule finite_subset) simp
qed

lemma GetSurroundedCloud_eq:
  "GetSurroundedCloud E w (Some scan) pose =
     Inr (w\<lparr>clouds := clouds w @
            [concat (map (\<lambda>a. clouds w ! a) (set_order E (surround_grids E w pose scan)))]\<rparr>,
          length (clouds w))"
  by (simp add: GetSurroundedCloud_def Let_def fold_append_clouds)

text \<open>
  C6. In \<^verbatim>\<open>GetSurroundedCloud(scan, pose)\<close> the clouds collected are exactly those of the voxels
  that contain \<open>pose \<cdot> p\<close> for a scan point \<open>p\<close> whose own norm, before the transformation,
  is at most 100; points of larger norm have no effect, wherever the pose maps them: the
  result is that of the scan without them. The cloud returned, at a new address, is the
  concatenation of the clouds collected, each of them once, in the iteration order of the
  set: a point is in the output if and only if it is in the cloud of the voxel of \<open>pose \<cdot> p\<close>
  for a scan point \<open>p\<close> of norm at most 100. (The norm is a finite single precision value.)
\<close>

theorem GetSurroundedCloud_radius:
  "surround_grids E w pose scan =
     {a. \<exists>p \<in> set scan. fl_norm E p \<le> 100 \<and>
        DynamicGrid_value None (grid w)
          (GetCellIndex E (resolution w) (fl_apply E pose p)) = Some a} \<and>
   GetSurroundedCloud E w (Some scan) pose =
     GetSurroundedCloud E w (Some (filter (\<lambda>p. fl_norm E p \<le> 100) scan)) pose \<and>
   GetSurroundedCloud E w (Some scan) pose =
     Inr (w\<lparr>clouds := clouds w @
            [concat (map (\<lambda>a. clouds w ! a) (set_order E (surround_grids E w pose scan)))]\<rparr>,
          length (clouds w)) \<and>
   (order_ok E \<longrightarrow>
      distinct (set_order E (surround_grids E w pose scan)) \<and>
      set (set_order E (surround_grids E w pose scan)) = surround_grids E w pose scan \<and>
      (\<forall>w' cloud_surround x.
         GetSurroundedCloud E w (Some scan) pose = Inr (w', cloud_surround) \<longrightarrow>
         (x \<in> set (clouds w' ! cloud_surround) \<longleftrightarrow>
            (\<exists>p \<in> set scan. fl_norm E p \<le> 100 \<and>
               (\<exists>a. DynamicGrid_value None (grid w)
                      (GetCellIndex E (resolution w) (fl_apply E pose p)) = Some a \<and>
                    x \<in> set (clouds w ! a))))))"
proof -
  let ?S = "surround_grids E w pose scan"
  have S: "?S =
     {a. \<exists>p \<in> set scan. fl_norm E p \<le> 100 \<and>
        DynamicGrid_value None (grid w)
          (GetCellIndex E (resolution w) (fl_apply E pose p)) = Some a}"
    unfolding surround_grids_def fold_surround_step by simp
  have F: "GetSurroundedCloud E w (Some scan) pose =
     GetSurroundedCloud E w (Some (filter (\<lambda>p. fl_norm E p \<le> 100) scan)) pose"
    by (simp add: GetSurroundedCloud_def surround_grids_filter)
  have O: "distinct (set_order E ?S) \<and> set (set_order E ?S) = ?S \<and>
      (\<forall>w' cloud_surround x.
         GetSurroundedCloud E w (Some scan) pose = Inr (w', cloud_surround) \<longrightarrow>
         (x \<in> set (clouds w' ! cloud_surround) \<longleftrightarrow>
            (\<exists>p \<in> set scan. fl_norm E p \<le> 100 \<and>
               (\<exists>a. DynamicGrid_value None (grid w)
                      (GetCellIndex E (resolution w) (fl_apply E pose p)) = Some a \<and>
                    x \<in> set (clouds w ! a)))))"
    if ok: "order_ok E"
  proof -
    have o: "set (set_order E ?S) = ?S" "distinct (set_order E ?S)"
      using ok finite_surround_grids [of E w pose scan] unfolding order_ok_def by blast+
    have "x \<in> set (clouds w' ! cloud_surround) \<longleftrightarrow>
            (\<exists>p \<in> set scan. fl_norm E p \<le> 100 \<and>
               (\<exists>a. DynamicGrid_value None (grid w)
                      (GetCellIndex E (resolution w) (fl_apply E pose p)) = Some a \<and>
                    x \<in> set (clouds w ! a)))"
      if r: "GetSurroundedCloud E w (Some scan) pose = Inr (w', cloud_surround)"
      for w' cloud_surround x
    proof -
      from r have "clouds w' ! cloud_surround =
          concat (map (\<lambda>a. clouds w ! a) (set_order E ?S))"
        unfolding GetSurroundedCloud_eq by auto
      then have "x \<in> set (clouds w' ! cloud_surround) \<longleftrightarrow> (\<exists>a \<in> ?S. x \<in> set (clouds w ! a))"
        by (simp add: o(1))
      also have "\<dots> \<longleftrightarrow> (\<exists>p \<in> set scan. fl_norm E p \<le> 100 \<and>
               (\<exists>a. DynamicGrid_value None (grid w)
                      (GetCellIndex E (resolution w) (fl_apply E pose p)) = Some a \<and>
                    x \<in> set (clouds w ! a)))"
        unfolding S by blast
      finally show ?thesis .
    qed
    then show ?thesis using o by blast
  qed
  show ?thesis using S F GetSurroundedCloud_eq [of E w scan pose] O by blast
qed

lemma DynamicGrid_value_not_covers: "\<not> covers g index \<Longrightarrow> DynamicGrid_value d g index = d"
  by (simp add: covers_def DynamicGrid_value_def Let_def)

text \<open>
  C7. A call of \<^verbatim>\<open>GetSurroundedCloud\<close> that returns leaves the grid (its bits, its meta cells
  and so every cell value) and the resolution as they were, and every cloud of the store as
  it was; the cloud it returns is at a new address. The lookups are reads: at an index the
  grid does not cover \<^verbatim>\<open>value\<close> returns the null pointer.
\<close>

theorem GetSurroundedCloud_reads_only:
  assumes "GetSurroundedCloud E w scan pose = Inr (w', cloud_surround)"
  shows "grid w' = grid w \<and> resolution w' = resolution w \<and>
    cloud_surround = length (clouds w) \<and> length (clouds w') = Suc (length (clouds w)) \<and>
    take (length (clouds w)) (clouds w') = clouds w \<and>
    (\<forall>index. \<not> covers (grid w) index \<longrightarrow> DynamicGrid_value None (grid w) index = None)"
  using assms
  by (auto simp: GetSurroundedCloud_def Let_def DynamicGrid_value_not_covers split: option.splits)


lemma surround_grids_new:
  "surround_grids E (HybridGridImpl_new r) pose scan = {}"
  unfolding surround_grids_def fold_surround_step
  by (simp add: HybridGridImpl_new_def DynamicGrid_value_new)

theorem GetSurroundedCloud_reads_only_witness:
  "GetSurroundedCloud exact_ops (HybridGridImpl_new 1) (Some [(3, 4, 0)]) (1, 0, 0) =
     Inr (\<lparr>clouds = [[]], grid = DynamicGrid_new, resolution = 1\<rparr>, 0) \<and>
   grid \<lparr>clouds = [[]], grid = DynamicGrid_new, resolution = 1\<rparr> = grid (HybridGridImpl_new 1) \<and>
   (0 :: nat) = length (clouds (HybridGridImpl_new 1)) \<and>
   \<not> covers (grid (HybridGridImpl_new 1)) (64, 0, 0) \<and>
   DynamicGrid_value None (grid (HybridGridImpl_new 1)) (64, 0, 0) = None"
proof -
  have g: "GetSurroundedCloud exact_ops (HybridGridImpl_new 1) (Some [(3, 4, 0)]) (1, 0, 0) =
     Inr (\<lparr>clouds = [[]], grid = DynamicGrid_new, resolution = 1\<rparr>, 0)"
    by (simp add: GetSurroundedCloud_def surround_grids_new)
      (simp add: HybridGridImpl_new_def exact_ops_def)
  have c: "\<not> covers (grid (HybridGridImpl_new 1)) (64, 0, 0)"
    by (simp add: covers_def HybridGridImpl_new_def DynamicGrid_new_def grid_size_def
        NestedGrid_grid_size_def FlatGrid_grid_size_def array_plus_def any_unsigned_ge_def)
  show ?thesis
    using GetSurroundedCloud_reads_only [OF g] g c by (simp add: HybridGridImpl_new_def)
qed

text \<open>
  C8, as stated, fails on the code: neither operation tests the scan pointer, and both
  dereference it first (\<^verbatim>\<open>scan->empty()\<close>, \<^verbatim>\<open>*scan\<close>), so a null scan is not a silent return.
\<close>

theorem null_scan_counterexample:
  "InsertScan exact_ops (HybridGridImpl_new 1) None id = Inl NullPointer \<and>
   GetSurroundedCloud exact_ops (HybridGridImpl_new 1) None (0, 0, 0) = Inl NullPointer"
  by (simp add: InsertScan_def GetSurroundedCloud_def)

text \<open>
  C8, amended. An empty scan is not an error: \<^verbatim>\<open>InsertScan\<close> on an empty scan returns and
  leaves the state as it was, whatever the filter (it is not applied), and
  \<^verbatim>\<open>GetSurroundedCloud\<close> on an empty scan returns a new, empty cloud. A null scan pointer is
  dereferenced by both operations.
\<close>

theorem empty_scan:
  assumes "order_ok E"
  shows "InsertScan E w (Some []) flt = Inr w \<and>
    GetSurroundedCloud E w (Some []) pose =
      Inr (w\<lparr>clouds := clouds w @ [[]]\<rparr>, length (clouds w)) \<and>
    InsertScan E w None flt = Inl NullPointer \<and>
    GetSurroundedCloud E w None pose = Inl NullPointer"
  using order_ok_empty [OF assms]
  by (simp add: InsertScan_def GetSurroundedCloud_def surround_grids_def)

theorem empty_scan_witness:
  "order_ok exact_ops \<and>
   InsertScan exact_ops (HybridGridImpl_new 1) (Some []) (\<lambda>c. []) = Inr (HybridGridImpl_new 1) \<and>
   GetSurroundedCloud exact_ops (HybridGridImpl_new 1) (Some []) (0, 0, 0) =
     Inr (\<lparr>clouds = [[]], grid = DynamicGrid_new, resolution = 1\<rparr>, 0)"
  using empty_scan [OF order_ok_exact_ops, of "HybridGridImpl_new 1" "\<lambda>c. []" "(0, 0, 0)"]
    order_ok_exact_ops
  by (simp add: HybridGridImpl_new_def)

section \<open>Iterators\<close>

text \<open>
  An iterator holds two pointers \<^verbatim>\<open>current_\<close> and \<^verbatim>\<open>end_\<close> into an array that does not change
  while it is iterated: it is modelled by the elements from \<^verbatim>\<open>current_\<close> up to \<^verbatim>\<open>end_\<close>.
  \<^verbatim>\<open>++current_\<close> drops the first of them, \<^verbatim>\<open>*current_\<close> is the first, \<^verbatim>\<open>end_ - current_\<close> is
  their number, and \<^verbatim>\<open>Done()\<close> holds when none is left. A default constructed iterator has
  two null pointers and is done.
\<close>

type_synonym 'v FlatIterator = "'v list"

text \<open>The loop \<^verbatim>\<open>while (!Done() && IsDefaultValue(*current_)) ++current_\<close>.\<close>

fun skip_default :: "'v \<Rightarrow> 'v list \<Rightarrow> 'v list" where
  "skip_default d [] = []"
| "skip_default d (v # vs) = (if IsDefaultValue d v then skip_default d vs else v # vs)"

definition FlatIterator_new :: "'v \<Rightarrow> 'v FlatGrid \<Rightarrow> 'v FlatIterator" where
  "FlatIterator_new d cells = skip_default d cells"

definition FlatIterator_Next :: "'v \<Rightarrow> 'v FlatIterator \<Rightarrow> 'v FlatIterator" where
  "FlatIterator_Next d it = skip_default d (tl it)"

definition FlatIterator_Done :: "'v FlatIterator \<Rightarrow> bool" where
  "FlatIterator_Done it = (it = [])"

definition FlatIterator_GetCellIndex :: "'v FlatIterator \<Rightarrow> Array3i" where
  "FlatIterator_GetCellIndex it =
     (let index = push_bit (3 * 3) 1 - of_nat (length it) in To3DIndex index 3)"

definition FlatIterator_GetValue :: "'v FlatIterator \<Rightarrow> 'v" where
  "FlatIterator_GetValue it = hd it"

record 'v NestedIterator =
  nested_rest :: "'v FlatGrid option list"
  nested_iterator :: "'v FlatIterator"

definition NestedIterator_Done :: "'v NestedIterator \<Rightarrow> bool" where
  "NestedIterator_Done it = (nested_rest it = [])"

text \<open>\<^verbatim>\<open>AdvanceToValidNestedIterator\<close>: the \<^verbatim>\<open>for\<close> loop over the meta cells.\<close>

fun NestedIterator_Advance ::
  "'v \<Rightarrow> 'v FlatGrid option list \<Rightarrow> 'v FlatIterator \<Rightarrow> 'v NestedIterator" where
  "NestedIterator_Advance d [] nested = \<lparr>nested_rest = [], nested_iterator = nested\<rparr>"
| "NestedIterator_Advance d (c # cs) nested =
     (case c of
        None \<Rightarrow> NestedIterator_Advance d cs nested
      | Some cells \<Rightarrow>
          let nested' = FlatIterator_new d cells
          in if \<not> FlatIterator_Done nested'
             then \<lparr>nested_rest = c # cs, nested_iterator = nested'\<rparr>
             else NestedIterator_Advance d cs nested')"

definition NestedIterator_default :: "'v NestedIterator" where
  "NestedIterator_default = \<lparr>nested_rest = [], nested_iterator = []\<rparr>"

definition NestedIterator_new :: "'v \<Rightarrow> 'v NestedGrid \<Rightarrow> 'v NestedIterator" where
  "NestedIterator_new d meta_cells = NestedIterator_Advance d meta_cells []"

definition NestedIterator_Next :: "'v \<Rightarrow> 'v NestedIterator \<Rightarrow> 'v NestedIterator" where
  "NestedIterator_Next d it =
     (let nested' = FlatIterator_Next d (nested_iterator it)
      in if \<not> FlatIterator_Done nested' then it\<lparr>nested_iterator := nested'\<rparr>
         else NestedIterator_Advance d (tl (nested_rest it)) nested')"

definition NestedIterator_GetCellIndex :: "'v NestedIterator \<Rightarrow> Array3i" where
  "NestedIterator_GetCellIndex it =
     (let index = push_bit (3 * 3) 1 - of_nat (length (nested_rest it))
      in array_sum (array_times (To3DIndex index 3) FlatGrid_grid_size)
           (FlatIterator_GetCellIndex (nested_iterator it)))"

definition NestedIterator_GetValue :: "'v NestedIterator \<Rightarrow> 'v" where
  "NestedIterator_GetValue it = FlatIterator_GetValue (nested_iterator it)"

record 'v DynamicIterator =
  iterator_bits :: nat
  iterator_rest :: "'v NestedGrid option list"
  iterator_nested :: "'v NestedIterator"

definition Done :: "'v DynamicIterator \<Rightarrow> bool" where
  "Done it = (iterator_rest it = [])"

fun AdvanceToValidNestedIterator ::
  "'v \<Rightarrow> nat \<Rightarrow> 'v NestedGrid option list \<Rightarrow> 'v NestedIterator \<Rightarrow> 'v DynamicIterator" where
  "AdvanceToValidNestedIterator d b [] nested =
     \<lparr>iterator_bits = b, iterator_rest = [], iterator_nested = nested\<rparr>"
| "AdvanceToValidNestedIterator d b (c # cs) nested =
     (case c of
        None \<Rightarrow> AdvanceToValidNestedIterator d b cs nested
      | Some meta_cell \<Rightarrow>
          let nested' = NestedIterator_new d meta_cell
          in if \<not> NestedIterator_Done nested'
             then \<lparr>iterator_bits = b, iterator_rest = c # cs, iterator_nested = nested'\<rparr>
             else AdvanceToValidNestedIterator d b cs nested')"

definition Iterator :: "'v \<Rightarrow> 'v DynamicGrid \<Rightarrow> 'v DynamicIterator" where
  "Iterator d g =
     AdvanceToValidNestedIterator d (grid_bits g) (grid_meta_cells g) NestedIterator_default"

definition Next :: "'v \<Rightarrow> 'v DynamicIterator \<Rightarrow> 'v DynamicIterator" where
  "Next d it =
     (let nested' = NestedIterator_Next d (iterator_nested it)
      in if \<not> NestedIterator_Done nested' then it\<lparr>iterator_nested := nested'\<rparr>
         else AdvanceToValidNestedIterator d (iterator_bits it) (tl (iterator_rest it)) nested')"

definition GetCellIndex_it :: "'v DynamicIterator \<Rightarrow> Array3i" where
  "GetCellIndex_it it =
     (let outer_index =
            push_bit (3 * iterator_bits it) 1 - of_nat (length (iterator_rest it));
          shifted_index =
            array_sum (array_times (To3DIndex outer_index (iterator_bits it)) NestedGrid_grid_size)
              (NestedIterator_GetCellIndex (iterator_nested it))
      in array_minus shifted_index (push_bit (iterator_bits it - 1) 1 * NestedGrid_grid_size))"

definition GetValue :: "'v DynamicIterator \<Rightarrow> 'v" where
  "GetValue it = NestedIterator_GetValue (iterator_nested it)"

lemma length_skip_default: "length (skip_default d xs) \<le> length xs"
  by (induction xs) simp_all

lemma length_NestedIterator_Advance:
  "length (nested_rest (NestedIterator_Advance d cs nested)) \<le> length cs"
  by (induction cs arbitrary: nested) (auto simp: Let_def le_SucI split: option.splits)

lemma length_AdvanceToValidNestedIterator:
  "length (iterator_rest (AdvanceToValidNestedIterator d b cs nested)) \<le> length cs"
  by (induction cs arbitrary: nested) (auto simp: Let_def le_SucI split: option.splits)

lemma iterator_bits_Advance:
  "iterator_bits (AdvanceToValidNestedIterator d b cs nested) = b"
  by (induction cs arbitrary: nested) (auto simp: Let_def split: option.splits)

text \<open>The range-based \<^verbatim>\<open>for\<close> loop over \<^verbatim>\<open>begin()\<close> to \<^verbatim>\<open>end()\<close>: the pairs \<^verbatim>\<open>*it\<close> it yields.
  \<^verbatim>\<open>it != end()\<close> compares \<^verbatim>\<open>current_\<close> with \<^verbatim>\<open>end_\<close>.\<close>

definition iterator_measure :: "'v DynamicIterator \<Rightarrow> nat \<times> nat \<times> nat" where
  "iterator_measure it =
     (length (iterator_rest it), length (nested_rest (iterator_nested it)),
      length (nested_iterator (iterator_nested it)))"

lemma Next_decreases:
  assumes "\<not> Done it"
  shows "(iterator_measure (Next d it), iterator_measure it) \<in> less_than <*lex*> less_than <*lex*> less_than"
proof -
  let ?n = "iterator_nested it"
  let ?f' = "FlatIterator_Next d (nested_iterator ?n)"
  let ?n' = "NestedIterator_Next d ?n"
  have rest: "iterator_rest it \<noteq> []" using assms by (simp add: Done_def)
  show ?thesis
  proof (cases "NestedIterator_Done ?n'")
    case True
    have "Next d it =
        AdvanceToValidNestedIterator d (iterator_bits it) (tl (iterator_rest it)) ?n'"
      using True by (simp add: Next_def Let_def)
    then have "length (iterator_rest (Next d it)) \<le> length (tl (iterator_rest it))"
      by (simp only: length_AdvanceToValidNestedIterator)
    also have "\<dots> < length (iterator_rest it)" using rest by simp
    finally show ?thesis by (simp add: iterator_measure_def)
  next
    case False
    then have n: "Next d it = it\<lparr>iterator_nested := ?n'\<rparr>" by (simp add: Next_def Let_def)
    show ?thesis
    proof (cases "FlatIterator_Done ?f'")
      case f: False
      then have "nested_iterator ?n \<noteq> []"
        by (auto simp: FlatIterator_Done_def FlatIterator_Next_def)
      then have "length (tl (nested_iterator ?n)) < length (nested_iterator ?n)"
        by (cases "nested_iterator ?n") simp_all
      then have "length ?f' < length (nested_iterator ?n)"
        using length_skip_default [of d "tl (nested_iterator ?n)"]
        unfolding FlatIterator_Next_def by (rule le_less_trans [rotated])
      then show ?thesis
        using f by (simp add: n iterator_measure_def NestedIterator_Next_def Let_def)
    next
      case f: True
      then have n': "?n' = NestedIterator_Advance d (tl (nested_rest ?n)) ?f'"
        by (simp add: NestedIterator_Next_def Let_def)
      have ne: "nested_rest ?n \<noteq> []"
      proof
        assume "nested_rest ?n = []"
        then have "nested_rest ?n' = []" by (simp add: n')
        then show False using False by (simp add: NestedIterator_Done_def)
      qed
      have "length (nested_rest ?n') \<le> length (tl (nested_rest ?n))"
        unfolding n' by (rule length_NestedIterator_Advance)
      also have "\<dots> < length (nested_rest ?n)" using ne by simp
      finally show ?thesis by (simp add: n iterator_measure_def)
    qed
  qed
qed

function iterate_from :: "'v \<Rightarrow> 'v DynamicIterator \<Rightarrow> (Array3i \<times> 'v) list" where
  "iterate_from d it =
     (if Done it then [] else (GetCellIndex_it it, GetValue it) # iterate_from d (Next d it))"
  by pat_completeness auto
termination
  by (relation "inv_image (less_than <*lex*> less_than <*lex*> less_than)
        (\<lambda>(d, it). iterator_measure it)")
    (auto simp: Next_decreases)

declare iterate_from.simps [simp del]

definition iterate :: "'v \<Rightarrow> 'v DynamicGrid \<Rightarrow> (Array3i \<times> 'v) list" where
  "iterate d g = iterate_from d (Iterator d g)"

subsection \<open>What an iterator yields\<close>

text \<open>The values that are not the default value, each with the number of elements from it
  to the end of its array, at the three levels.\<close>

fun flat_items :: "'v \<Rightarrow> 'v list \<Rightarrow> (nat \<times> 'v) list" where
  "flat_items d [] = []"
| "flat_items d (v # vs) =
     (if v = d then flat_items d vs else (Suc (length vs), v) # flat_items d vs)"

fun nested_items :: "'v \<Rightarrow> 'v FlatGrid option list \<Rightarrow> (nat \<times> nat \<times> 'v) list" where
  "nested_items d [] = []"
| "nested_items d (c # cs) =
     (case c of None \<Rightarrow> [] | Some cells \<Rightarrow> map (Pair (Suc (length cs))) (flat_items d cells)) @
     nested_items d cs"

fun dynamic_items :: "'v \<Rightarrow> 'v NestedGrid option list \<Rightarrow> (nat \<times> nat \<times> nat \<times> 'v) list" where
  "dynamic_items d [] = []"
| "dynamic_items d (c # cs) =
     (case c of None \<Rightarrow> [] | Some meta_cell \<Rightarrow> map (Pair (Suc (length cs))) (nested_items d meta_cell)) @
     dynamic_items d cs"

definition nested_state_items :: "'v \<Rightarrow> 'v NestedIterator \<Rightarrow> (nat \<times> nat \<times> 'v) list" where
  "nested_state_items d it =
     (if nested_rest it = [] then []
      else map (Pair (length (nested_rest it))) (flat_items d (nested_iterator it)) @
           nested_items d (tl (nested_rest it)))"

definition state_items :: "'v \<Rightarrow> 'v DynamicIterator \<Rightarrow> (nat \<times> nat \<times> nat \<times> 'v) list" where
  "state_items d it =
     (if iterator_rest it = [] then []
      else map (Pair (length (iterator_rest it))) (nested_state_items d (iterator_nested it)) @
           dynamic_items d (tl (iterator_rest it)))"

definition nested_valid :: "'v \<Rightarrow> 'v NestedIterator \<Rightarrow> bool" where
  "nested_valid d it =
     (nested_rest it = [] \<or> (nested_iterator it \<noteq> [] \<and> hd (nested_iterator it) \<noteq> d))"

definition iterator_valid :: "'v \<Rightarrow> 'v DynamicIterator \<Rightarrow> bool" where
  "iterator_valid d it =
     (iterator_rest it = [] \<or>
      (nested_rest (iterator_nested it) \<noteq> [] \<and> nested_valid d (iterator_nested it)))"

lemma flat_items_skip_default: "flat_items d (skip_default d xs) = flat_items d xs"
  by (induction xs) (simp_all add: IsDefaultValue_def)

lemma hd_skip_default: "skip_default d xs \<noteq> [] \<Longrightarrow> hd (skip_default d xs) \<noteq> d"
  by (induction xs) (simp_all add: IsDefaultValue_def split: if_splits)

lemma flat_items_Next:
  assumes "f \<noteq> []" "hd f \<noteq> d"
  shows "flat_items d f = (length f, hd f) # flat_items d (FlatIterator_Next d f)"
  using assms by (cases f) (simp_all add: FlatIterator_Next_def flat_items_skip_default)

lemma NestedIterator_Advance_items:
  "nested_state_items d (NestedIterator_Advance d cs nested) = nested_items d cs \<and>
   nested_valid d (NestedIterator_Advance d cs nested)"
proof (induction cs arbitrary: nested)
  case Nil
  then show ?case by (simp add: nested_state_items_def nested_valid_def)
next
  case (Cons c cs)
  show ?case
  proof (cases c)
    case None
    then show ?thesis using Cons.IH by simp
  next
    case (Some cells)
    show ?thesis
    proof (cases "skip_default d cells = []")
      case True
      then have "flat_items d cells = []"
        using flat_items_skip_default [of d cells] by simp
      then show ?thesis
        using Cons.IH True Some by (simp add: FlatIterator_new_def FlatIterator_Done_def)
    next
      case False
      then show ?thesis
        using Some hd_skip_default [OF False]
        by (simp add: FlatIterator_new_def FlatIterator_Done_def nested_state_items_def
            nested_valid_def flat_items_skip_default)
    qed
  qed
qed

lemma NestedIterator_Next_items:
  assumes "nested_valid d it" "nested_rest it \<noteq> []"
  shows "nested_state_items d it =
      (length (nested_rest it), length (nested_iterator it), hd (nested_iterator it)) #
      nested_state_items d (NestedIterator_Next d it) \<and>
    nested_valid d (NestedIterator_Next d it)"
proof -
  let ?f = "nested_iterator it"
  let ?f' = "FlatIterator_Next d ?f"
  have f: "?f \<noteq> []" "hd ?f \<noteq> d" using assms by (simp_all add: nested_valid_def)
  note items = flat_items_Next [OF f]
  show ?thesis
  proof (cases "?f' = []")
    case True
    then have "NestedIterator_Next d it = NestedIterator_Advance d (tl (nested_rest it)) ?f'"
      by (simp add: NestedIterator_Next_def Let_def FlatIterator_Done_def)
    then show ?thesis
      using NestedIterator_Advance_items [of d "tl (nested_rest it)" ?f'] True assms(2) items
      by (simp add: nested_state_items_def)
  next
    case False
    then have n: "NestedIterator_Next d it = it\<lparr>nested_iterator := ?f'\<rparr>"
      by (simp add: NestedIterator_Next_def Let_def FlatIterator_Done_def)
    have "hd ?f' \<noteq> d"
      using False hd_skip_default [of d "tl ?f"] by (simp add: FlatIterator_Next_def)
    then show ?thesis
      using False assms(2) items by (simp add: n nested_state_items_def nested_valid_def)
  qed
qed

lemma AdvanceToValidNestedIterator_items:
  "state_items d (AdvanceToValidNestedIterator d b cs nested) = dynamic_items d cs \<and>
   iterator_valid d (AdvanceToValidNestedIterator d b cs nested)"
proof (induction cs arbitrary: nested)
  case Nil
  then show ?case by (simp add: state_items_def iterator_valid_def)
next
  case (Cons c cs)
  show ?case
  proof (cases c)
    case None
    then show ?thesis using Cons.IH by simp
  next
    case (Some meta_cell)
    let ?n = "NestedIterator_new d meta_cell"
    have n: "nested_state_items d ?n = nested_items d meta_cell" "nested_valid d ?n"
      using NestedIterator_Advance_items [of d meta_cell "[]"]
      by (simp_all add: NestedIterator_new_def)
    show ?thesis
    proof (cases "nested_rest ?n = []")
      case True
      then have "nested_items d meta_cell = []"
        using n(1) by (simp add: nested_state_items_def)
      then show ?thesis
        using Cons.IH True Some by (simp add: NestedIterator_Done_def)
    next
      case False
      then show ?thesis
        using Some n by (simp add: NestedIterator_Done_def state_items_def iterator_valid_def)
    qed
  qed
qed

lemma Next_items:
  assumes "iterator_valid d it" "iterator_rest it \<noteq> []"
  shows "state_items d it =
      (length (iterator_rest it), length (nested_rest (iterator_nested it)),
       length (nested_iterator (iterator_nested it)), hd (nested_iterator (iterator_nested it))) #
      state_items d (Next d it) \<and>
    iterator_valid d (Next d it) \<and> iterator_bits (Next d it) = iterator_bits it"
proof -
  let ?n = "iterator_nested it"
  let ?n' = "NestedIterator_Next d ?n"
  have n: "nested_valid d ?n" "nested_rest ?n \<noteq> []"
    using assms by (simp_all add: iterator_valid_def)
  note items = NestedIterator_Next_items [OF n]
  show ?thesis
  proof (cases "nested_rest ?n' = []")
    case True
    then have "Next d it =
        AdvanceToValidNestedIterator d (iterator_bits it) (tl (iterator_rest it)) ?n'"
      by (simp add: Next_def Let_def NestedIterator_Done_def)
    then show ?thesis
      using AdvanceToValidNestedIterator_items [of d "iterator_bits it" "tl (iterator_rest it)" ?n']
        True assms(2) items
      by (simp add: state_items_def nested_state_items_def iterator_bits_Advance)
  next
    case False
    then have "Next d it = it\<lparr>iterator_nested := ?n'\<rparr>"
      by (simp add: Next_def Let_def NestedIterator_Done_def)
    then show ?thesis
      using False assms(2) items by (simp add: state_items_def iterator_valid_def)
  qed
qed

text \<open>The index an iterator computes, from the bits and the three numbers of elements
  left.\<close>

definition cell_index :: "nat \<Rightarrow> nat \<times> nat \<times> nat \<Rightarrow> Array3i" where
  "cell_index b p = (case p of (kd, kn, kf) \<Rightarrow>
     array_minus
       (array_sum
          (array_times (To3DIndex (push_bit (3 * b) 1 - of_nat kd) b) NestedGrid_grid_size)
          (array_sum
             (array_times (To3DIndex (push_bit (3 * 3) 1 - of_nat kn) 3) FlatGrid_grid_size)
             (To3DIndex (push_bit (3 * 3) 1 - of_nat kf) 3)))
       (push_bit (b - 1) 1 * NestedGrid_grid_size))"

lemma GetCellIndex_it_eq:
  "GetCellIndex_it it =
     cell_index (iterator_bits it)
       (length (iterator_rest it), length (nested_rest (iterator_nested it)),
        length (nested_iterator (iterator_nested it)))"
  by (simp add: GetCellIndex_it_def cell_index_def NestedIterator_GetCellIndex_def
      FlatIterator_GetCellIndex_def Let_def)

lemma iterate_from_items:
  "iterator_valid d it \<Longrightarrow>
   iterate_from d it =
     map (\<lambda>(kd, kn, kf, v). (cell_index (iterator_bits it) (kd, kn, kf), v)) (state_items d it)"
proof (induction d it rule: iterate_from.induct)
  case (1 d it)
  show ?case
  proof (cases "Done it")
    case True
    then show ?thesis
      by (subst iterate_from.simps) (simp add: Done_def state_items_def)
  next
    case False
    then have r: "iterator_rest it \<noteq> []" by (simp add: Done_def)
    note n = Next_items [OF "1.prems" r]
    have "iterate_from d (Next d it) =
        map (\<lambda>(kd, kn, kf, v). (cell_index (iterator_bits it) (kd, kn, kf), v))
          (state_items d (Next d it))"
      using "1.IH" [OF False] n by simp
    then show ?thesis
      using False n
      by (subst iterate_from.simps)
        (simp add: GetCellIndex_it_eq GetValue_def NestedIterator_GetValue_def
          FlatIterator_GetValue_def)
  qed
qed

lemma iterate_items:
  "iterate d g =
     map (\<lambda>(kd, kn, kf, v). (cell_index (grid_bits g) (kd, kn, kf), v))
       (dynamic_items d (grid_meta_cells g))"
  using AdvanceToValidNestedIterator_items [of d "grid_bits g" "grid_meta_cells g" NestedIterator_default]
    iterate_from_items [of d "Iterator d g"]
  by (simp add: iterate_def Iterator_def iterator_bits_Advance)

definition unflat :: "nat \<Rightarrow> nat \<Rightarrow> nat \<times> nat \<times> nat" where
  "unflat b m = (m mod 2 ^ b, m div 2 ^ b mod 2 ^ b, m div 2 ^ b div 2 ^ b)"

lemma flat3_unflat: "flat3 b (unflat b m) = m"
proof -
  have "m div 2 ^ b div 2 ^ b * 2 ^ b + m div 2 ^ b mod 2 ^ b = m div 2 ^ b"
    by (rule div_mult_mod_eq)
  moreover have "m div 2 ^ b * 2 ^ b + m mod 2 ^ b = m" by (rule div_mult_mod_eq)
  ultimately show ?thesis by (simp only: flat3_def unflat_def prod.case)
qed

lemma unflat_less:
  assumes "m < 2 ^ (3 * b)"
  shows "fst (unflat b m) < 2 ^ b" "fst (snd (unflat b m)) < 2 ^ b" "snd (snd (unflat b m)) < 2 ^ b"
proof -
  have "(2::nat) ^ (3 * b) = 2 ^ b * (2 ^ b * 2 ^ b)"
    by (simp add: power_add [symmetric])
  then have "m div 2 ^ b < 2 ^ b * 2 ^ b"
    using assms by (simp add: less_mult_imp_div_less mult.commute)
  then show "snd (snd (unflat b m)) < 2 ^ b"
    by (simp add: unflat_def less_mult_imp_div_less)
qed (simp_all add: unflat_def)

lemma mask_push_bit: "(push_bit b 1 - 1 :: i32) = mask b"
  by (simp add: mask_eq_exp_minus_1)

lemma To3DIndex_of_nat:
  assumes "m < 2 ^ 31"
  shows "To3DIndex (of_nat m) b =
    (of_nat (fst (unflat b m)), of_nat (fst (snd (unflat b m))), of_nat (snd (snd (unflat b m))))"
proof -
  have d: "signed_drop_bit b (of_nat m :: i32) = of_nat (m div 2 ^ b)"
    using assms by (rule signed_drop_bit_of_nat)
  have "m div 2 ^ b \<le> m" by simp
  then have "m div 2 ^ b < 2 ^ 31" using assms by (rule le_less_trans)
  then have d2: "signed_drop_bit b (of_nat (m div 2 ^ b) :: i32) = of_nat (m div 2 ^ b div 2 ^ b)"
    by (rule signed_drop_bit_of_nat)
  have t: "(of_nat k :: i32) AND mask b = of_nat (k mod 2 ^ b)" for k
  proof -
    have "(of_nat k :: i32) AND mask b = take_bit b (of_nat k)"
      by (simp only: take_bit_eq_mask)
    also have "\<dots> = of_nat (take_bit b k)" by (simp only: take_bit_of_nat)
    also have "take_bit b k = k mod 2 ^ b" by (rule take_bit_eq_mod)
    finally show ?thesis .
  qed
  show ?thesis
    unfolding To3DIndex_def Let_def mask_push_bit d d2 t unflat_def by simp
qed

text \<open>The signed index of the cell at position \<open>f\<close> of the flat grid at position \<open>n\<close> of
  the nested grid at position \<open>m\<close>: meta index times 64, plus the inner index, minus
  \<open>2 ^ (bits - 1)\<close> times 64.\<close>

definition entry_index :: "nat \<Rightarrow> nat \<Rightarrow> nat \<Rightarrow> nat \<Rightarrow> Array3i" where
  "entry_index b m n f =
     array_minus
       (array_sum (array_times (To3DIndex (of_nat m) b) NestedGrid_grid_size)
          (array_sum (array_times (To3DIndex (of_nat n) 3) FlatGrid_grid_size)
             (To3DIndex (of_nat f) 3)))
       (push_bit (b - 1) 1 * NestedGrid_grid_size)"

lemma cell_index_entry_index:
  assumes "kd \<le> 2 ^ (3 * b)" "kn \<le> 512" "kf \<le> 512"
  shows "cell_index b (kd, kn, kf) = entry_index b (2 ^ (3 * b) - kd) (512 - kn) (512 - kf)"
proof -
  have "(push_bit (3 * b) 1 :: i32) - of_nat kd = of_nat (2 ^ (3 * b) - kd)"
    using assms(1) by (simp add: push_bit_eq_mult of_nat_diff)
  moreover have "(push_bit (3 * 3) 1 :: i32) - of_nat kn = of_nat (512 - kn)"
    using assms(2) by (simp add: of_nat_diff)
  moreover have "(push_bit (3 * 3) 1 :: i32) - of_nat kf = of_nat (512 - kf)"
    using assms(3) by (simp add: of_nat_diff)
  ultimately show ?thesis
    by (simp only: cell_index_def entry_index_def prod.case)
qed

lemma shifted_component:
  assumes "1 \<le> b" "b \<le> 8" "mx < 2 ^ b" "nx < 8" "fx < 8"
  shows "shifted_nat b (of_nat mx * 64 + (of_nat nx * 8 + of_nat fx) - push_bit (b - 1) 1 * 64) =
    mx * 64 + nx * 8 + fx"
proof -
  let ?s = "mx * 64 + nx * 8 + fx"
  have p: "(2::nat) ^ b = 2 * 2 ^ (b - 1)" using assms(1) by (rule pow_split)
  have "(push_bit (b - 1) 1 * 64 :: i32) = of_nat (2 ^ (b - 1) * 64)"
    by (simp add: push_bit_eq_mult)
  also have "2 ^ (b - 1) * 64 = 32 * (2::nat) ^ b" using p by simp
  finally have h: "(push_bit (b - 1) 1 * 64 :: i32) = of_nat (32 * 2 ^ b)" .
  have "(of_nat mx * 64 + (of_nat nx * 8 + of_nat fx) :: i32) = of_nat ?s" by simp
  then have "shifted_nat b (of_nat mx * 64 + (of_nat nx * 8 + of_nat fx) - push_bit (b - 1) 1 * 64) =
      unat (of_nat ?s - of_nat (32 * 2 ^ b) + (of_nat (32 * 2 ^ b) :: i32))"
    by (simp only: shifted_nat_def h)
  also have "\<dots> = unat (of_nat ?s :: i32)" by (simp only: diff_add_cancel)
  also have "\<dots> = ?s"
    using assms(3-5) pow_le_256 [OF assms(2)] by (intro unat_of_nat_small) simp
  finally show ?thesis .
qed

lemma component_div_mod:
  assumes "nx < 8" "fx < (8::nat)"
  shows "(mx * 64 + nx * 8 + fx) div 64 = mx" "(mx * 64 + nx * 8 + fx) mod 64 div 8 = nx"
    "(mx * 64 + nx * 8 + fx) mod 64 mod 8 = fx"
proof -
  have l: "nx * 8 + fx < 64" using assms by simp
  have "mx * 64 + nx * 8 + fx = nx * 8 + fx + mx * 64" by simp
  then show "(mx * 64 + nx * 8 + fx) div 64 = mx" using l by simp
  have m: "(mx * 64 + nx * 8 + fx) mod 64 = nx * 8 + fx" using l by (simp add: add.assoc)
  show "(mx * 64 + nx * 8 + fx) mod 64 div 8 = nx" using assms by (simp add: m)
  show "(mx * 64 + nx * 8 + fx) mod 64 mod 8 = fx" using assms by (simp add: m)
qed

lemma component_less:
  assumes "mx < 2 ^ b" "nx < 8" "fx < (8::nat)"
  shows "mx * 64 + nx * 8 + fx < 64 * 2 ^ b"
proof -
  have "mx + 1 \<le> 2 ^ b" using assms(1) by simp
  then have "(mx + 1) * 64 \<le> 2 ^ b * 64" by (rule mult_le_mono1)
  then show ?thesis using assms(2,3) by simp
qed

lemma entry_index_locate:
  assumes "1 \<le> b" "b \<le> 8" "m < 2 ^ (3 * b)" "n < 512" "f < 512"
  shows "in_range b (entry_index b m n f)" "locate b (entry_index b m n f) = (m, n, f)"
proof -
  obtain mx my mz where um: "unflat b m = (mx, my, mz)" by (cases "unflat b m")
  obtain nx ny nz where un: "unflat 3 n = (nx, ny, nz)" by (cases "unflat 3 n")
  obtain fx fy fz where uf: "unflat 3 f = (fx, fy, fz)" by (cases "unflat 3 f")
  have bm: "mx < 2 ^ b" "my < 2 ^ b" "mz < 2 ^ b"
    using unflat_less [OF assms(3)] by (simp_all add: um)
  have bn: "nx < 8" "ny < 8" "nz < 8"
    using unflat_less [of n 3] assms(4) by (simp_all add: un)
  have bf: "fx < 8" "fy < 8" "fz < 8"
    using unflat_less [of f 3] assms(5) by (simp_all add: uf)
  have "(2::nat) ^ (3 * b) \<le> 2 ^ 24" using assms(2) by (intro power_increasing) simp_all
  then have m31: "m < 2 ^ 31" using assms(3) by simp
  have n31: "n < 2 ^ 31" "f < 2 ^ 31" using assms(4,5) by simp_all
  have e: "entry_index b m n f =
      (of_nat mx * 64 + (of_nat nx * 8 + of_nat fx) - push_bit (b - 1) 1 * 64,
       of_nat my * 64 + (of_nat ny * 8 + of_nat fy) - push_bit (b - 1) 1 * 64,
       of_nat mz * 64 + (of_nat nz * 8 + of_nat fz) - push_bit (b - 1) 1 * 64)"
    unfolding entry_index_def To3DIndex_of_nat [OF m31] To3DIndex_of_nat [OF n31(1)]
      To3DIndex_of_nat [OF n31(2)] um un uf
    by (simp add: array_minus_def array_sum_def array_times_def NestedGrid_grid_size_64
        FlatGrid_grid_size_def)
  note sx = shifted_component [OF assms(1,2) bm(1) bn(1) bf(1)]
  note sy = shifted_component [OF assms(1,2) bm(2) bn(2) bf(2)]
  note sz = shifted_component [OF assms(1,2) bm(3) bn(3) bf(3)]
  show "in_range b (entry_index b m n f)"
    unfolding e in_range_def prod.case sx sy sz
    using component_less [OF bm(1) bn(1) bf(1)] component_less [OF bm(2) bn(2) bf(2)]
      component_less [OF bm(3) bn(3) bf(3)]
    by simp
  have "locate b (entry_index b m n f) =
      (flat3 b (mx, my, mz), flat3 3 (nx, ny, nz), flat3 3 (fx, fy, fz))"
    unfolding e locate_def nested_slot_def prod.case sx sy sz
    by (simp only: component_div_mod [OF bn(1) bf(1)] component_div_mod [OF bn(2) bf(2)]
        component_div_mod [OF bn(3) bf(3)])
  then show "locate b (entry_index b m n f) = (m, n, f)"
    using flat3_unflat [of b m] flat3_unflat [of 3 n] flat3_unflat [of 3 f]
    by (simp add: um un uf)
qed

text \<open>
  The entries of a grid in z-major order: the meta cells in the order of their flat index,
  in each constructed meta cell the nested meta cells in the order of their flat index, in
  each constructed flat grid the cells in the order of their flat index, skipping the
  cells that hold the default value.
\<close>

definition grid_entries :: "'v \<Rightarrow> 'v DynamicGrid \<Rightarrow> (Array3i \<times> 'v) list" where
  "grid_entries d g =
     [(entry_index (grid_bits g) m n f, v).
        (m, Some meta_cell) \<leftarrow> enumerate 0 (grid_meta_cells g),
        (n, Some cells) \<leftarrow> enumerate 0 meta_cell,
        (f, v) \<leftarrow> enumerate 0 cells,
        \<not> IsDefaultValue d v]"

fun items_of :: "('a \<Rightarrow> 'b list) \<Rightarrow> 'a list \<Rightarrow> (nat \<times> 'b) list" where
  "items_of g [] = []"
| "items_of g (c # cs) = map (Pair (Suc (length cs))) (g c) @ items_of g cs"

lemma flat_items_of: "flat_items d xs = items_of (\<lambda>v. if v = d then [] else [v]) xs"
  by (induction xs) simp_all

lemma nested_items_of:
  "nested_items d cs =
     items_of (\<lambda>c. case c of None \<Rightarrow> [] | Some cells \<Rightarrow> flat_items d cells) cs"
  by (induction cs) (simp_all split: option.splits)

lemma dynamic_items_of:
  "dynamic_items d cs =
     items_of (\<lambda>c. case c of None \<Rightarrow> [] | Some meta_cell \<Rightarrow> nested_items d meta_cell) cs"
  by (induction cs) (simp_all split: option.splits)

lemma items_of_enumerate:
  "items_of g cs =
     concat (map (\<lambda>(i, c). map (Pair (n + length cs - i)) (g c)) (enumerate n cs))"
proof (induction cs arbitrary: n)
  case Nil
  then show ?case by simp
next
  case (Cons c cs)
  show ?case using Cons.IH [of "Suc n"] by simp
qed

lemma items_of_member:
  "(k, x) \<in> set (items_of g cs) \<Longrightarrow>
   1 \<le> k \<and> k \<le> length cs \<and> x \<in> set (g (cs ! (length cs - k)))"
proof (induction cs)
  case Nil
  then show ?case by simp
next
  case (Cons c cs)
  show ?case
  proof (cases "(k, x) \<in> set (items_of g cs)")
    case True
    then have "1 \<le> k \<and> k \<le> length cs \<and> x \<in> set (g (cs ! (length cs - k)))"
      by (rule Cons.IH)
    then show ?thesis by (simp add: Suc_diff_le)
  next
    case False
    then show ?thesis using Cons.prems by auto
  qed
qed

lemma items_of_distinct:
  assumes "\<And>c. c \<in> set cs \<Longrightarrow> distinct (map key (g c))"
  shows "distinct (map (\<lambda>(k, x). (k, key x)) (items_of g cs))"
  using assms
proof (induction cs)
  case Nil
  then show ?case by simp
next
  case (Cons c cs)
  have 1: "distinct (map (\<lambda>(k, x). (k, key x)) (map (Pair (Suc (length cs))) (g c)))"
    using Cons.prems [of c] by (simp add: distinct_map comp_def inj_on_def)
  have 2: "distinct (map (\<lambda>(k, x). (k, key x)) (items_of g cs))"
    using Cons.prems by (intro Cons.IH) simp
  have 3: "(Suc (length cs), x) \<notin> set (items_of g cs)" for x
    using items_of_member [of "Suc (length cs)" x g cs] by auto
  show ?case
    using 1 2 3 by (auto simp: comp_def)
qed

definition flat_block :: "'v \<Rightarrow> nat \<Rightarrow> nat \<Rightarrow> nat \<Rightarrow> 'v list \<Rightarrow> (Array3i \<times> 'v) list" where
  "flat_block d b m n cells =
     concat (map (\<lambda>(f, v). map (\<lambda>v. (entry_index b m n f, v)) (if v = d then [] else [v]))
       (enumerate 0 cells))"

definition nested_block :: "'v \<Rightarrow> nat \<Rightarrow> nat \<Rightarrow> 'v NestedGrid \<Rightarrow> (Array3i \<times> 'v) list" where
  "nested_block d b m meta_cell =
     concat (map (\<lambda>(n, c). case c of None \<Rightarrow> [] | Some cells \<Rightarrow> flat_block d b m n cells)
       (enumerate 0 meta_cell))"

lemma grid_entries_blocks:
  "grid_entries d g =
     concat (map (\<lambda>(m, c). case c of None \<Rightarrow> [] | Some meta_cell \<Rightarrow> nested_block d (grid_bits g) m meta_cell)
       (enumerate 0 (grid_meta_cells g)))"
proof -
  have f: "concat (map (\<lambda>x. case x of (f, v) \<Rightarrow> if \<not> IsDefaultValue d v then [(entry_index b m n f, v)] else [])
        (enumerate 0 cells)) = flat_block d b m n cells" for b m n and cells :: "'a list"
    unfolding flat_block_def
    by (rule arg_cong [where f=concat], rule map_cong) (auto simp: IsDefaultValue_def)
  have n: "concat (map (\<lambda>x. case x of (n, None) \<Rightarrow> [] | (n, Some cells) \<Rightarrow> flat_block d b m n cells)
        (enumerate 0 meta_cell)) = nested_block d b m meta_cell" for b m and meta_cell :: "'a NestedGrid"
    unfolding nested_block_def
    by (rule arg_cong [where f=concat], rule map_cong) (auto split: option.splits)
  show ?thesis
    unfolding grid_entries_def f n
    by (rule arg_cong [where f=concat], rule map_cong) (auto split: option.splits)
qed

lemma items_of_positions:
  assumes "length cs = N"
  shows "map (\<lambda>(k, x). h (N - k) x) (items_of g cs) =
    concat (map (\<lambda>(i, c). map (h i) (g c)) (enumerate 0 cs))"
proof -
  have "map (\<lambda>(k, x). h (N - k) x) (items_of g cs) =
      concat (map (\<lambda>(i, c). map (\<lambda>x. h (N - (N - i)) x) (g c)) (enumerate 0 cs))"
    unfolding items_of_enumerate [of g cs 0] map_concat map_map
    by (rule arg_cong [where f=concat], rule map_cong) (auto simp: assms comp_def)
  also have "\<dots> = concat (map (\<lambda>(i, c). map (h i) (g c)) (enumerate 0 cs))"
  proof (rule arg_cong [where f=concat], rule map_cong)
    fix p assume "p \<in> set (enumerate 0 cs)"
    then have "fst p < N" using assms by (auto simp: in_set_enumerate_eq)
    then have "N - (N - fst p) = fst p" by simp
    then show "(case p of (i, c) \<Rightarrow> map (\<lambda>x. h (N - (N - i)) x) (g c)) =
        (case p of (i, c) \<Rightarrow> map (h i) (g c))"
      by (cases p) simp
  qed simp
  finally show ?thesis .
qed

lemma flat_items_block:
  assumes "length cells = 512"
  shows "map (\<lambda>(kf, v). (entry_index b m n (512 - kf), v)) (flat_items d cells) =
    flat_block d b m n cells"
  unfolding flat_items_of flat_block_def
  using items_of_positions [OF assms, of "\<lambda>f v. (entry_index b m n f, v)"
      "\<lambda>v. if v = d then [] else [v]"]
  by simp

lemma nested_items_block:
  assumes "NestedGrid_inv meta_cell"
  shows "map (\<lambda>(kn, kf, v). (entry_index b m (512 - kn) (512 - kf), v)) (nested_items d meta_cell) =
    nested_block d b m meta_cell"
proof -
  have len: "length meta_cell = 512" using assms by (simp add: NestedGrid_inv_def)
  have "map (\<lambda>(kn, kf, v). (entry_index b m (512 - kn) (512 - kf), v)) (nested_items d meta_cell) =
      concat (map (\<lambda>(n, c). map (\<lambda>(kf, v). (entry_index b m n (512 - kf), v))
          (case c of None \<Rightarrow> [] | Some cells \<Rightarrow> flat_items d cells)) (enumerate 0 meta_cell))"
    unfolding nested_items_of
    using items_of_positions [OF len, of "\<lambda>n (kf, v). (entry_index b m n (512 - kf), v)"
        "\<lambda>c. case c of None \<Rightarrow> [] | Some cells \<Rightarrow> flat_items d cells"]
    by (simp add: case_prod_unfold)
  also have "\<dots> = nested_block d b m meta_cell"
    unfolding nested_block_def
  proof (rule arg_cong [where f=concat], rule map_cong)
    fix p assume p: "p \<in> set (enumerate 0 meta_cell)"
    obtain n c where pn: "p = (n, c)" by (cases p)
    show "(case p of (n, c) \<Rightarrow> map (\<lambda>(kf, v). (entry_index b m n (512 - kf), v))
          (case c of None \<Rightarrow> [] | Some cells \<Rightarrow> flat_items d cells)) =
        (case p of (n, c) \<Rightarrow> case c of None \<Rightarrow> [] | Some cells \<Rightarrow> flat_block d b m n cells)"
    proof (cases c)
      case None
      then show ?thesis by (simp add: pn)
    next
      case (Some cells)
      then have "Some cells \<in> set meta_cell"
        using p by (auto simp: pn in_set_enumerate_eq intro: nth_Some_mem)
      then have "length cells = 512"
        using assms by (simp add: NestedGrid_inv_def FlatGrid_inv_def)
      then show ?thesis by (simp add: pn Some flat_items_block)
    qed
  qed simp
  finally show ?thesis .
qed

lemma dynamic_items_entries:
  assumes "DynamicGrid_inv g"
  shows "map (\<lambda>(kd, kn, kf, v).
        (entry_index (grid_bits g) (2 ^ (3 * grid_bits g) - kd) (512 - kn) (512 - kf), v))
      (dynamic_items d (grid_meta_cells g)) =
    grid_entries d g"
proof -
  let ?b = "grid_bits g"
  have len: "length (grid_meta_cells g) = 2 ^ (3 * ?b)" using assms by (simp add: DynamicGrid_inv_def)
  have "map (\<lambda>(kd, kn, kf, v). (entry_index ?b (2 ^ (3 * ?b) - kd) (512 - kn) (512 - kf), v))
      (dynamic_items d (grid_meta_cells g)) =
      concat (map (\<lambda>(m, c). map (\<lambda>(kn, kf, v). (entry_index ?b m (512 - kn) (512 - kf), v))
          (case c of None \<Rightarrow> [] | Some meta_cell \<Rightarrow> nested_items d meta_cell))
        (enumerate 0 (grid_meta_cells g)))"
    unfolding dynamic_items_of
    using items_of_positions [OF len, of "\<lambda>m (kn, kf, v). (entry_index ?b m (512 - kn) (512 - kf), v)"
        "\<lambda>c. case c of None \<Rightarrow> [] | Some meta_cell \<Rightarrow> nested_items d meta_cell"]
    by (simp add: case_prod_unfold)
  also have "\<dots> = grid_entries d g"
    unfolding grid_entries_blocks
  proof (rule arg_cong [where f=concat], rule map_cong)
    fix p assume p: "p \<in> set (enumerate 0 (grid_meta_cells g))"
    obtain m c where pm: "p = (m, c)" by (cases p)
    show "(case p of (m, c) \<Rightarrow> map (\<lambda>(kn, kf, v). (entry_index ?b m (512 - kn) (512 - kf), v))
          (case c of None \<Rightarrow> [] | Some meta_cell \<Rightarrow> nested_items d meta_cell)) =
        (case p of (m, c) \<Rightarrow> case c of None \<Rightarrow> [] | Some meta_cell \<Rightarrow> nested_block d ?b m meta_cell)"
    proof (cases c)
      case None
      then show ?thesis by (simp add: pm)
    next
      case (Some meta_cell)
      then have "Some meta_cell \<in> set (grid_meta_cells g)"
        using p by (auto simp: pm in_set_enumerate_eq intro: nth_Some_mem)
      then have "NestedGrid_inv meta_cell"
        using assms by (simp add: DynamicGrid_inv_def)
      then show ?thesis by (simp add: pm Some nested_items_block)
    qed
  qed simp
  finally show ?thesis .
qed

lemma items_of_member_iff:
  "(k, x) \<in> set (items_of g cs) \<longleftrightarrow>
   1 \<le> k \<and> k \<le> length cs \<and> x \<in> set (g (cs ! (length cs - k)))"
proof
  assume "(k, x) \<in> set (items_of g cs)"
  then show "1 \<le> k \<and> k \<le> length cs \<and> x \<in> set (g (cs ! (length cs - k)))"
    by (rule items_of_member)
next
  assume a: "1 \<le> k \<and> k \<le> length cs \<and> x \<in> set (g (cs ! (length cs - k)))"
  then show "(k, x) \<in> set (items_of g cs)"
  proof (induction cs)
    case Nil
    then show ?case by auto
  next
    case (Cons c cs)
    show ?case
    proof (cases "k = Suc (length cs)")
      case True
      then show ?thesis using Cons.prems by simp
    next
      case False
      then have "k \<le> length cs" using Cons.prems by simp
      then have "(c # cs) ! (length (c # cs) - k) = cs ! (length cs - k)"
        using Cons.prems by (simp add: Suc_diff_le)
      then show ?thesis using Cons.IH Cons.prems \<open>k \<le> length cs\<close> by simp
    qed
  qed
qed

lemma items_of_distinct_key:
  assumes "\<And>c k. c \<in> set cs \<Longrightarrow> distinct (map (\<lambda>x. key (k, x)) (g c))"
    and "\<And>k x k' x'. key (k, x) = key (k', x') \<Longrightarrow> k = k'"
  shows "distinct (map key (items_of g cs))"
  using assms(1)
proof (induction cs)
  case Nil
  then show ?case by simp
next
  case (Cons c cs)
  have 1: "distinct (map key (map (Pair (Suc (length cs))) (g c)))"
    using Cons.prems [of c "Suc (length cs)"] by (simp add: comp_def)
  have 2: "distinct (map key (items_of g cs))"
    using Cons.prems by (intro Cons.IH) simp
  have 3: "key (Suc (length cs), x) \<noteq> key p" if "p \<in> set (items_of g cs)" for x p
  proof
    assume e: "key (Suc (length cs), x) = key p"
    obtain k y where p: "p = (k, y)" by (cases p)
    have "Suc (length cs) = k" using e assms(2) [of "Suc (length cs)" x k y] by (simp add: p)
    then show False using items_of_member [of k y g cs] that by (simp add: p)
  qed
  show ?case using 1 2 3 by (auto simp: comp_def)
qed

lemma flat_items_distinct: "distinct (map fst (flat_items d cells))"
  unfolding flat_items_of by (rule items_of_distinct_key) auto

lemma nested_items_distinct: "distinct (map (\<lambda>(kn, kf, v). (kn, kf)) (nested_items d cs))"
  unfolding nested_items_of
proof (rule items_of_distinct_key)
  fix c :: "'a list option" and k :: nat
  have "distinct (map (\<lambda>x. (k, fst x)) (flat_items d cells))" for cells
  proof -
    have "map (\<lambda>x. (k, fst x)) (flat_items d cells) = map (Pair k) (map fst (flat_items d cells))"
      by simp
    then show ?thesis
      using flat_items_distinct [of d cells] by (simp only: distinct_map) (simp add: inj_on_def)
  qed
  then show "distinct (map (\<lambda>x. case (k, x) of (kn, kf, v) \<Rightarrow> (kn, kf))
      (case c of None \<Rightarrow> [] | Some cells \<Rightarrow> flat_items d cells))"
    by (cases c) (simp_all add: case_prod_unfold)
qed auto

lemma dynamic_items_distinct:
  "distinct (map (\<lambda>(kd, kn, kf, v). (kd, kn, kf)) (dynamic_items d cs))"
  unfolding dynamic_items_of
proof (rule items_of_distinct_key)
  fix c :: "'a NestedGrid option" and k :: nat
  have "distinct (map (\<lambda>x. (k, fst x, fst (snd x))) (nested_items d mc))" for mc
  proof -
    have "map (\<lambda>x. (k, fst x, fst (snd x))) (nested_items d mc) =
        map (Pair k) (map (\<lambda>(kn, kf, v). (kn, kf)) (nested_items d mc))"
      by (simp add: case_prod_unfold)
    then show ?thesis
      using nested_items_distinct [of d mc] by (simp only: distinct_map) (simp add: inj_on_def)
  qed
  then show "distinct (map (\<lambda>x. case (k, x) of (kd, kn, kf, v) \<Rightarrow> (kd, kn, kf))
      (case c of None \<Rightarrow> [] | Some meta_cell \<Rightarrow> nested_items d meta_cell))"
    by (cases c) (simp_all add: case_prod_unfold)
qed auto

lemma flat_items_member_iff:
  "(kf, v) \<in> set (flat_items d cells) \<longleftrightarrow>
   1 \<le> kf \<and> kf \<le> length cells \<and> v \<noteq> d \<and> cells ! (length cells - kf) = v"
  unfolding flat_items_of items_of_member_iff by auto

lemma nested_items_member_iff:
  assumes "NestedGrid_inv mc"
  shows "(kn, kf, v) \<in> set (nested_items d mc) \<longleftrightarrow>
    1 \<le> kn \<and> kn \<le> 512 \<and> 1 \<le> kf \<and> kf \<le> 512 \<and> v \<noteq> d \<and>
    nested_at d mc (512 - kn, 512 - kf) = v"
proof -
  have len: "length mc = 512" using assms by (simp add: NestedGrid_inv_def)
  show ?thesis
  proof (cases "1 \<le> kn \<and> kn \<le> 512")
    case False
    then show ?thesis unfolding nested_items_of items_of_member_iff len by auto
  next
    case True
    then have l: "512 - kn < length mc" using len by simp
    show ?thesis
    proof (cases "mc ! (512 - kn)")
      case None
      then show ?thesis
        unfolding nested_items_of items_of_member_iff len by (auto simp: nested_at_def)
    next
      case (Some cells)
      then have "length cells = 512"
        using NestedGrid_inv_nth [OF assms l] by (simp add: FlatGrid_inv_def)
      then show ?thesis
        using True Some unfolding nested_items_of items_of_member_iff len
        by (simp add: nested_at_def flat_items_member_iff)
    qed
  qed
qed

lemma dynamic_items_member_iff:
  assumes "DynamicGrid_inv g"
  shows "(kd, kn, kf, v) \<in> set (dynamic_items d (grid_meta_cells g)) \<longleftrightarrow>
    1 \<le> kd \<and> kd \<le> 2 ^ (3 * grid_bits g) \<and> 1 \<le> kn \<and> kn \<le> 512 \<and> 1 \<le> kf \<and> kf \<le> 512 \<and>
    v \<noteq> d \<and> cell_at d g (2 ^ (3 * grid_bits g) - kd, 512 - kn, 512 - kf) = v"
proof -
  let ?N = "(2::nat) ^ (3 * grid_bits g)"
  have len: "length (grid_meta_cells g) = ?N" using assms by (simp add: DynamicGrid_inv_def)
  show ?thesis
  proof (cases "1 \<le> kd \<and> kd \<le> ?N")
    case False
    then show ?thesis unfolding dynamic_items_of items_of_member_iff len by auto
  next
    case True
    then have l: "?N - kd < length (grid_meta_cells g)" using len by simp
    show ?thesis
    proof (cases "grid_meta_cells g ! (?N - kd)")
      case None
      then show ?thesis
        unfolding dynamic_items_of items_of_member_iff len by (auto simp: cell_at_def)
    next
      case (Some mc)
      then have "NestedGrid_inv mc" using DynamicGrid_inv_nth [OF assms l] by simp
      then show ?thesis
        using True Some unfolding dynamic_items_of items_of_member_iff len
        by (simp add: cell_at_def nested_items_member_iff)
    qed
  qed
qed

lemma iterate_entries:
  assumes "DynamicGrid_inv g"
  shows "iterate d g = grid_entries d g"
proof -
  have "map (\<lambda>(kd, kn, kf, v). (cell_index (grid_bits g) (kd, kn, kf), v))
        (dynamic_items d (grid_meta_cells g)) =
      map (\<lambda>(kd, kn, kf, v).
          (entry_index (grid_bits g) (2 ^ (3 * grid_bits g) - kd) (512 - kn) (512 - kf), v))
        (dynamic_items d (grid_meta_cells g))"
  proof (rule map_cong)
    fix p assume p: "p \<in> set (dynamic_items d (grid_meta_cells g))"
    obtain kd kn kf v where pp: "p = (kd, kn, kf, v)" by (cases p)
    have "kd \<le> 2 ^ (3 * grid_bits g)" "kn \<le> 512" "kf \<le> 512"
      using p dynamic_items_member_iff [OF assms, of kd kn kf v d] by (simp_all add: pp)
    then show "(case p of (kd, kn, kf, v) \<Rightarrow> (cell_index (grid_bits g) (kd, kn, kf), v)) =
        (case p of (kd, kn, kf, v) \<Rightarrow>
          (entry_index (grid_bits g) (2 ^ (3 * grid_bits g) - kd) (512 - kn) (512 - kf), v))"
      by (simp add: pp cell_index_entry_index)
  qed simp
  then show ?thesis
    by (simp only: iterate_items dynamic_items_entries [OF assms])
qed

lemma grid_entries_member_iff:
  assumes "DynamicGrid_inv g"
  shows "(index, v) \<in> set (grid_entries d g) \<longleftrightarrow> v \<noteq> d \<and> DynamicGrid_value d g index = v"
proof -
  let ?b = "grid_bits g"
  let ?N = "(2::nat) ^ (3 * ?b)"
  have b: "1 \<le> ?b" "?b \<le> 8" using assms by (simp_all add: DynamicGrid_inv_def)
  show ?thesis
  proof
    assume "(index, v) \<in> set (grid_entries d g)"
    then obtain kd kn kf where m: "(kd, kn, kf, v) \<in> set (dynamic_items d (grid_meta_cells g))"
      and i: "index = entry_index ?b (?N - kd) (512 - kn) (512 - kf)"
      unfolding dynamic_items_entries [OF assms, symmetric] by auto
    from m have k: "1 \<le> kd" "kd \<le> ?N" "1 \<le> kn" "kn \<le> 512" "1 \<le> kf" "kf \<le> 512"
      and v: "v \<noteq> d" "cell_at d g (?N - kd, 512 - kn, 512 - kf) = v"
      unfolding dynamic_items_member_iff [OF assms] by simp_all
    have l: "?N - kd < ?N" "512 - kn < 512" "512 - kf < 512" using k by simp_all
    note e = entry_index_locate [OF b l]
    show "v \<noteq> d \<and> DynamicGrid_value d g index = v"
      using v e b by (simp add: DynamicGrid_value_eq i)
  next
    assume a: "v \<noteq> d \<and> DynamicGrid_value d g index = v"
    then have r: "in_range ?b index" using b by (auto simp: DynamicGrid_value_eq split: if_splits)
    obtain m n f where loc: "locate ?b index = (m, n, f)" by (cases "locate ?b index")
    have l: "m < ?N" "n < 512" "f < 512"
      using valid_locate [OF r] by (simp_all add: loc valid_slot_def)
    have c: "cell_at d g (m, n, f) = v" using a r b by (simp add: DynamicGrid_value_eq loc)
    have sub: "?N - (?N - m) = m" "512 - (512 - n) = n" "512 - (512 - f) = f"
      and pos: "1 \<le> ?N - m" "?N - m \<le> ?N" "1 \<le> 512 - n" "512 - n \<le> 512"
        "1 \<le> 512 - f" "512 - f \<le> 512"
      using l by arith+
    have mem: "(?N - m, 512 - n, 512 - f, v) \<in> set (dynamic_items d (grid_meta_cells g))"
      unfolding dynamic_items_member_iff [OF assms] sub using pos c a by blast
    have "(entry_index ?b m n f, v) =
        (\<lambda>(kd, kn, kf, v). (entry_index ?b (?N - kd) (512 - kn) (512 - kf), v))
          (?N - m, 512 - n, 512 - f, v)"
      by (simp only: prod.case sub)
    then have "(entry_index ?b m n f, v) \<in> set (grid_entries d g)"
      unfolding dynamic_items_entries [OF assms, symmetric] set_map using mem by (rule image_eqI)
    moreover have "index = entry_index ?b m n f"
      using entry_index_locate [OF b l] r loc by (intro locate_inj [of ?b]) simp_all
    ultimately show "(index, v) \<in> set (grid_entries d g)" by simp
  qed
qed

lemma grid_entries_distinct:
  assumes "DynamicGrid_inv g"
  shows "distinct (map fst (grid_entries d g))"
proof -
  let ?b = "grid_bits g"
  let ?N = "(2::nat) ^ (3 * ?b)"
  let ?E = "\<lambda>(kd, kn, kf). entry_index ?b (?N - kd) (512 - kn) (512 - kf)"
  let ?K = "\<lambda>(kd, kn, kf, v :: 'a). (kd, kn, kf)"
  let ?items = "dynamic_items d (grid_meta_cells g)"
  have b: "1 \<le> ?b" "?b \<le> 8" using assms by (simp_all add: DynamicGrid_inv_def)
  have "map fst (grid_entries d g) = map ?E (map ?K ?items)"
    unfolding dynamic_items_entries [OF assms, symmetric] map_map
    by (rule map_cong) (auto simp: comp_def)
  moreover have "distinct (map ?K ?items)" by (rule dynamic_items_distinct)
  moreover have "inj_on ?E (set (map ?K ?items))"
  proof (rule inj_onI)
    fix p q
    assume p: "p \<in> set (map ?K ?items)" and q: "q \<in> set (map ?K ?items)" and e: "?E p = ?E q"
    obtain kd kn kf where pp: "p = (kd, kn, kf)" by (cases p)
    obtain kd' kn' kf' where qq: "q = (kd', kn', kf')" by (cases q)
    from p obtain v where "(kd, kn, kf, v) \<in> set ?items" by (auto simp: pp)
    then have k: "1 \<le> kd" "kd \<le> ?N" "1 \<le> kn" "kn \<le> 512" "1 \<le> kf" "kf \<le> 512"
      unfolding dynamic_items_member_iff [OF assms] by simp_all
    from q obtain v' where "(kd', kn', kf', v') \<in> set ?items" by (auto simp: qq)
    then have k': "1 \<le> kd'" "kd' \<le> ?N" "1 \<le> kn'" "kn' \<le> 512" "1 \<le> kf'" "kf' \<le> 512"
      unfolding dynamic_items_member_iff [OF assms] by simp_all
    have l: "?N - kd < ?N" "512 - kn < 512" "512 - kf < 512" using k by simp_all
    have l': "?N - kd' < ?N" "512 - kn' < 512" "512 - kf' < 512" using k' by simp_all
    have ep: "?E p = entry_index ?b (?N - kd) (512 - kn) (512 - kf)" by (simp only: pp prod.case)
    have eq: "?E q = entry_index ?b (?N - kd') (512 - kn') (512 - kf')" by (simp only: qq prod.case)
    have lp: "locate ?b (?E p) = (?N - kd, 512 - kn, 512 - kf)"
      unfolding ep by (rule entry_index_locate(2) [OF b l])
    have lq: "locate ?b (?E q) = (?N - kd', 512 - kn', 512 - kf')"
      unfolding eq by (rule entry_index_locate(2) [OF b l'])
    from e have "locate ?b (?E p) = locate ?b (?E q)" by (rule arg_cong)
    then have "(?N - kd, 512 - kn, 512 - kf) = (?N - kd', 512 - kn', 512 - kf')"
      by (simp only: lp lq)
    then have "?N - kd = ?N - kd'" "512 - kn = 512 - kn'" "512 - kf = 512 - kf'" by simp_all
    then have "kd = kd'" "kn = kn'" "kf = kf'" using k k' by arith+
    then show "p = q" by (simp only: pp qq)
  qed
  ultimately show ?thesis by (simp only: distinct_map simp_thms)
qed

lemma set_value_reachable:
  assumes "reachable d g" "set_value d g index v = Inr g'"
  shows "reachable d g'"
proof -
  from assms(2) obtain g1 p where m: "DynamicGrid_mutable_value d g index = Inr (g1, p)"
    and g': "g' = slot_set g1 p v"
    by (auto simp: set_value_def split: sum.splits)
  show ?thesis unfolding g' using assms(1) m by (rule reachable_write)
qed

lemma distinct_singleton:
  assumes "distinct xs" "set xs = {x}"
  shows "xs = [x]"
proof (cases xs)
  case Nil
  then show ?thesis using assms(2) by simp
next
  case (Cons y ys)
  then have y: "y = x" using assms(2) by auto
  have "set ys \<subseteq> {x}" using assms(2) Cons by auto
  moreover have "x \<notin> set ys" using assms(1) Cons y by simp
  ultimately have "ys = []" by (cases ys) auto
  then show ?thesis using Cons y by simp
qed

text \<open>
  C4. Iterating a reachable grid yields the entries of the grid in z-major order: the meta
  cells in the order of their flat index, then the nested meta cells, then the cells of the
  flat grid, each entry with the signed index \<open>meta \<cdot> 64 + inner - 2 ^ (bits - 1) \<cdot> 64\<close>. No
  index is yielded twice, and a pair \<open>(index, v)\<close> is yielded exactly when \<open>v\<close> is not the
  default value and is the value of the grid at \<open>index\<close>.
\<close>

theorem iterate_complete_ordered:
  assumes "reachable d g"
  shows "iterate d g = grid_entries d g \<and> distinct (map fst (iterate d g)) \<and>
    (\<forall>index v. (index, v) \<in> set (iterate d g) \<longleftrightarrow>
       \<not> IsDefaultValue d v \<and> DynamicGrid_value d g index = v)"
proof -
  have inv: "DynamicGrid_inv g" using assms by (rule reachable_inv)
  show ?thesis
    using iterate_entries [OF inv, of d] grid_entries_distinct [OF inv, of d]
      grid_entries_member_iff [OF inv, of _ _ d]
    by (simp add: IsDefaultValue_def)
qed

theorem iterate_complete_ordered_witness:
  "\<exists>g. set_value (None :: nat option) DynamicGrid_new (3, - 2, 0) (Some 5) = Inr g \<and>
     reachable None g \<and> iterate None g = [((3, - 2, 0), Some 5)] \<and>
     grid_entries None g = [((3, - 2, 0), Some 5)]"
proof -
  let ?i = "(3, - 2, 0) :: Array3i"
  have a: "addressable ?i" by (simp add: addressable_def)
  from set_value_result [OF DynamicGrid_inv_new, of ?i "None :: nat option" "Some 5"] a
  obtain g where w: "set_value (None :: nat option) DynamicGrid_new ?i (Some 5) = Inr g"
    and val: "\<forall>index'. DynamicGrid_value None g index' =
      (if index' = ?i then Some 5 else DynamicGrid_value None DynamicGrid_new index')"
    by auto
  have r: "reachable None g" using reachable_new w by (rule set_value_reachable)
  note c4 = iterate_complete_ordered [OF r]
  have v: "DynamicGrid_value None g index = (if index = ?i then Some 5 else None)" for index
    using val [rule_format, of index] by (simp add: DynamicGrid_value_new)
  have "set (iterate None g) = {(?i, Some 5)}"
  proof (rule set_eqI)
    fix p :: "Array3i \<times> nat option"
    obtain index u where p: "p = (index, u)" by (cases p)
    show "p \<in> set (iterate None g) \<longleftrightarrow> p \<in> {(?i, Some 5)}"
      using c4 [THEN conjunct2, THEN conjunct2, rule_format, of index u] v [of index]
      by (auto simp: p IsDefaultValue_def)
  qed
  moreover have "distinct (iterate None g)"
    using c4 [THEN conjunct2, THEN conjunct1] by (rule distinct_map [THEN iffD1, THEN conjunct1])
  ultimately have "iterate None g = [(?i, Some 5)]" by (rule distinct_singleton [rotated])
  then show ?thesis using w r c4 by auto
qed

subsection \<open>Cloud handles under \<^verbatim>\<open>InsertScan\<close>\<close>

text \<open>Every handle stored in the grid is the address of a cloud of the store.\<close>

definition handles_valid :: "world \<Rightarrow> bool" where
  "handles_valid w =
     (\<forall>index a. DynamicGrid_value None (grid w) index = Some a \<longrightarrow> a < length (clouds w))"

lemma handles_valid_new: "handles_valid (HybridGridImpl_new r)"
  by (simp add: handles_valid_def HybridGridImpl_new_def DynamicGrid_value_new)

lemma insert_point_cases:
  assumes "DynamicGrid_inv (grid w)" "insert_point E w p = Inr w'"
  shows "\<exists>g' s. DynamicGrid_mutable_value None (grid w) (GetCellIndex E (resolution w) p) =
        Inr (g', s) \<and>
      (case DynamicGrid_value None (grid w) (GetCellIndex E (resolution w) p) of
         None \<Rightarrow> w' = w\<lparr>clouds := clouds w @ [[p]],
                        grid := slot_set g' s (Some (length (clouds w)))\<rparr>
       | Some c \<Rightarrow> w' = w\<lparr>clouds := (clouds w)[c := clouds w ! c @ [p]], grid := g'\<rparr>)"
proof -
  let ?i = "GetCellIndex E (resolution w) p"
  from assms(2) obtain g' s where m: "DynamicGrid_mutable_value None (grid w) ?i = Inr (g', s)"
    by (auto simp: insert_point_def split: sum.splits)
  have get: "slot_get g' s = Some (DynamicGrid_value None (grid w) ?i)"
    by (rule DynamicGrid_mutable_value_Inr(6) [OF assms(1) m])
  show ?thesis
    using assms(2) by (auto simp: insert_point_def m get split: option.splits)
qed

lemma insert_point_result:
  assumes "DynamicGrid_inv (grid w)" "insert_point E w p = Inr w'"
  shows "DynamicGrid_inv (grid w') \<and> resolution w' = resolution w \<and>
    length (clouds w) \<le> length (clouds w') \<and>
    DynamicGrid_value None (grid w') (GetCellIndex E (resolution w) p) \<noteq> None \<and>
    (\<forall>index a. DynamicGrid_value None (grid w) index = Some a \<longrightarrow>
       DynamicGrid_value None (grid w') index = Some a) \<and>
    (handles_valid w \<longrightarrow> handles_valid w')"
proof -
  let ?i = "GetCellIndex E (resolution w) p"
  from insert_point_cases [OF assms] obtain g' s
    where m: "DynamicGrid_mutable_value None (grid w) ?i = Inr (g', s)"
      and c: "case DynamicGrid_value None (grid w) ?i of
         None \<Rightarrow> w' = w\<lparr>clouds := clouds w @ [[p]],
                        grid := slot_set g' s (Some (length (clouds w)))\<rparr>
       | Some c \<Rightarrow> w' = w\<lparr>clouds := (clouds w)[c := clouds w ! c @ [p]], grid := g'\<rparr>"
    by blast
  note r = DynamicGrid_mutable_value_Inr [OF assms(1) m]
  show ?thesis
  proof (cases "DynamicGrid_value None (grid w) ?i")
    case None
    then have w': "w' = w\<lparr>clouds := clouds w @ [[p]],
        grid := slot_set g' s (Some (length (clouds w)))\<rparr>"
      using c by simp
    have v: "DynamicGrid_value None (grid w') index =
        (if index = ?i then Some (length (clouds w)) else DynamicGrid_value None (grid w) index)"
      for index
      by (simp add: w' r(8))
    have "DynamicGrid_inv (grid w')" by (simp add: w' r(9))
    moreover have "resolution w' = resolution w" "length (clouds w) \<le> length (clouds w')"
      by (simp_all add: w')
    moreover have "DynamicGrid_value None (grid w') ?i \<noteq> None" by (simp add: v)
    moreover have "\<forall>index a. DynamicGrid_value None (grid w) index = Some a \<longrightarrow>
        DynamicGrid_value None (grid w') index = Some a"
      using None by (auto simp: v)
    moreover have "handles_valid w \<longrightarrow> handles_valid w'"
      unfolding handles_valid_def v by (auto simp: w' less_Suc_eq)
    ultimately show ?thesis by blast
  next
    case (Some a)
    then have w': "w' = w\<lparr>clouds := (clouds w)[a := clouds w ! a @ [p]], grid := g'\<rparr>"
      using c by simp
    have v: "DynamicGrid_value None (grid w') index = DynamicGrid_value None (grid w) index"
      for index
      by (simp add: w' r(7))
    have "DynamicGrid_inv (grid w')" by (simp add: w' r(2))
    moreover have "resolution w' = resolution w" "length (clouds w) \<le> length (clouds w')"
      by (simp_all add: w')
    moreover have "DynamicGrid_value None (grid w') ?i \<noteq> None" by (simp add: v Some)
    moreover have "\<forall>index a. DynamicGrid_value None (grid w) index = Some a \<longrightarrow>
        DynamicGrid_value None (grid w') index = Some a"
      by (simp add: v)
    moreover have "handles_valid w \<longrightarrow> handles_valid w'"
      unfolding handles_valid_def v by (simp add: w')
    ultimately show ?thesis by blast
  qed
qed

lemma insert_points_result:
  assumes "DynamicGrid_inv (grid w)" "insert_points E w ps = Inr w'"
  shows "DynamicGrid_inv (grid w') \<and> resolution w' = resolution w \<and>
    (\<forall>p \<in> set ps. DynamicGrid_value None (grid w') (GetCellIndex E (resolution w) p) \<noteq> None) \<and>
    (\<forall>index a. DynamicGrid_value None (grid w) index = Some a \<longrightarrow>
       DynamicGrid_value None (grid w') index = Some a) \<and>
    (handles_valid w \<longrightarrow> handles_valid w')"
  using assms
proof (induction ps arbitrary: w)
  case Nil
  then show ?case by simp
next
  case (Cons p ps)
  from Cons.prems(2) obtain w1 where 1: "insert_point E w p = Inr w1"
    and 2: "insert_points E w1 ps = Inr w'"
    by (auto split: sum.splits)
  note s = insert_point_result [OF Cons.prems(1) 1]
  from s have inv1: "DynamicGrid_inv (grid w1)" by blast
  note ih = Cons.IH [OF inv1 2]
  have res: "resolution w1 = resolution w" using s by blast
  have keep1: "DynamicGrid_value None (grid w1) index = Some a \<Longrightarrow>
      DynamicGrid_value None (grid w') index = Some a" for index a
    using ih by blast
  have keep: "DynamicGrid_value None (grid w') index = Some a"
    if "DynamicGrid_value None (grid w) index = Some a" for index a
  proof -
    from s that have "DynamicGrid_value None (grid w1) index = Some a" by blast
    then show ?thesis by (rule keep1)
  qed
  from s obtain a
    where "DynamicGrid_value None (grid w1) (GetCellIndex E (resolution w) p) = Some a"
    by blast
  then have here: "DynamicGrid_value None (grid w') (GetCellIndex E (resolution w) p) = Some a"
    by (rule keep1)
  have rest: "\<forall>q \<in> set ps.
      DynamicGrid_value None (grid w') (GetCellIndex E (resolution w) q) \<noteq> None"
    using ih by (simp add: res)
  have hv: "handles_valid w \<longrightarrow> handles_valid w'" using s ih by blast
  have "DynamicGrid_inv (grid w')" "resolution w' = resolution w" using ih res by simp_all
  then show ?case using here rest keep hv by simp
qed

lemma insert_points_succeeds:
  assumes "DynamicGrid_inv (grid w)"
    "\<forall>p \<in> set ps. addressable (GetCellIndex E (resolution w) p)"
  shows "\<exists>w'. insert_points E w ps = Inr w'"
  using assms
proof (induction ps arbitrary: w)
  case Nil
  then show ?case by simp
next
  case (Cons p ps)
  let ?i = "GetCellIndex E (resolution w) p"
  have "addressable ?i" using Cons.prems(2) by simp
  from DynamicGrid_mutable_value_succeeds [OF Cons.prems(1) this]
  obtain g' s where m: "DynamicGrid_mutable_value None (grid w) ?i = Inr (g', s)" by blast
  have get: "slot_get g' s = Some (DynamicGrid_value None (grid w) ?i)"
    by (rule DynamicGrid_mutable_value_Inr(6) [OF Cons.prems(1) m])
  obtain w1 where 1: "insert_point E w p = Inr w1"
    by (cases "DynamicGrid_value None (grid w) ?i") (simp_all add: insert_point_def m get)
  note s = insert_point_result [OF Cons.prems(1) 1]
  from s have inv1: "DynamicGrid_inv (grid w1)" and res: "resolution w1 = resolution w"
    by blast+
  have "\<forall>q \<in> set ps. addressable (GetCellIndex E (resolution w1) q)"
    using Cons.prems(2) by (simp add: res)
  from Cons.IH [OF inv1 this] show ?case by (simp add: 1)
qed

lemma fold_filter_cloud:
  "grid (fold (filter_cloud flt) as w) = grid w \<and>
   resolution (fold (filter_cloud flt) as w) = resolution w \<and>
   length (clouds (fold (filter_cloud flt) as w)) = length (clouds w)"
  by (induction as arbitrary: w) (simp_all add: filter_cloud_def)

lemma fold_filter_cloud_nth:
  assumes "distinct as" "i < length (clouds w)"
  shows "clouds (fold (filter_cloud flt) as w) ! i =
    (if i \<in> set as then flt (clouds w ! i) else clouds w ! i)"
  using assms
proof (induction as arbitrary: w)
  case Nil
  then show ?case by simp
next
  case (Cons a as)
  have l: "i < length (clouds (filter_cloud flt a w))"
    using Cons.prems(2) by (simp add: filter_cloud_def)
  have d: "distinct as" "a \<notin> set as" using Cons.prems(1) by simp_all
  show ?case
  proof (cases "i = a")
    case True
    then show ?thesis
      using Cons.IH [OF d(1) l] d(2) Cons.prems(2) by (simp add: filter_cloud_def)
  next
    case False
    then have "a \<noteq> i" by simp
    then show ?thesis
      using Cons.IH [OF d(1) l] Cons.prems(2) False by (simp add: filter_cloud_def)
  qed
qed

lemma scan_grids_eq:
  "scan_grids E w scan =
     {a. \<exists>p \<in> set scan.
        DynamicGrid_value None (grid w) (GetCellIndex E (resolution w) p) = Some a}"
proof -
  have "fold (\<lambda>point inserted_grids.
             case DynamicGrid_value None (grid w) (GetCellIndex E (resolution w) point) of
               None \<Rightarrow> inserted_grids
             | Some a \<Rightarrow> insert a inserted_grids) scan S =
      S \<union> {a. \<exists>p \<in> set scan.
        DynamicGrid_value None (grid w) (GetCellIndex E (resolution w) p) = Some a}" for S
    by (induction scan arbitrary: S) (auto split: option.splits)
  then show ?thesis by (simp add: scan_grids_def)
qed

lemma finite_scan_grids: "finite (scan_grids E w scan)"
  unfolding scan_grids_eq
proof -
  have "{a. \<exists>p \<in> set scan.
        DynamicGrid_value None (grid w) (GetCellIndex E (resolution w) p) = Some a} \<subseteq>
      (\<lambda>p. the (DynamicGrid_value None (grid w) (GetCellIndex E (resolution w) p))) ` set scan"
    by force
  then show "finite {a. \<exists>p \<in> set scan.
        DynamicGrid_value None (grid w) (GetCellIndex E (resolution w) p) = Some a}"
    by (rule finite_subset) simp
qed

lemma InsertScan_result:
  assumes "DynamicGrid_inv (grid w)" "InsertScan E w (Some scan) flt = Inr w'"
  shows "\<exists>w1. insert_points E w scan = Inr w1 \<and> grid w' = grid w1 \<and>
    resolution w' = resolution w \<and> length (clouds w') = length (clouds w1) \<and>
    (scan \<noteq> [] \<longrightarrow> w' = fold (filter_cloud flt) (set_order E (scan_grids E w1 scan)) w1)"
proof (cases "scan = []")
  case True
  then show ?thesis using assms by (simp add: InsertScan_def)
next
  case False
  then obtain w1 where 1: "insert_points E w scan = Inr w1"
    and w': "w' = fold (filter_cloud flt) (set_order E (scan_grids E w1 scan)) w1"
    using assms(2) by (auto simp: InsertScan_def split: sum.splits)
  show ?thesis
    using insert_points_result [OF assms(1) 1] by (simp add: 1 w' fold_filter_cloud)
qed

lemma InsertScan_succeeds:
  assumes "DynamicGrid_inv (grid w)"
    "\<forall>p \<in> set scan. addressable (GetCellIndex E (resolution w) p)"
  shows "\<exists>w'. InsertScan E w (Some scan) flt = Inr w'"
  using insert_points_succeeds [OF assms] by (auto simp: InsertScan_def)

text \<open>
  C10. A cell that holds a cloud handle keeps that handle: \<^verbatim>\<open>InsertScan\<close> leaves every handle
  of the grid where it was, \<^verbatim>\<open>GetSurroundedCloud\<close> leaves the grid as it was, and
  \<^verbatim>\<open>mutable_value\<close>, growth included, changes no cell value. After \<^verbatim>\<open>InsertScan\<close> the voxel
  of every scan point holds a handle, and the cloud behind it is what the filter made of the
  cloud after the insertions, whatever that is, the empty cloud included. The tests of the
  iteration and of \<^verbatim>\<open>GetSurroundedCloud\<close> look at the handle only: every cell with a handle
  is not a default value, is yielded by the iteration, and its handle is inserted into the set
  of touched clouds by every scan with a point of norm at most \<^verbatim>\<open>kDist\<close> that the pose maps
  into the cell.
\<close>

theorem allocated_cells_stay_allocated:
  assumes "order_ok E" "DynamicGrid_inv (grid w)" "handles_valid w"
    and "InsertScan E w (Some scan) flt = Inr w'"
  shows "resolution w' = resolution w \<and>
    (\<forall>index a. DynamicGrid_value None (grid w) index = Some a \<longrightarrow>
       DynamicGrid_value None (grid w') index = Some a) \<and>
    (\<exists>w1. insert_points E w scan = Inr w1 \<and> length (clouds w') = length (clouds w1) \<and>
       (\<forall>p \<in> set scan. \<exists>a.
          DynamicGrid_value None (grid w') (GetCellIndex E (resolution w) p) = Some a \<and>
          a < length (clouds w') \<and> clouds w' ! a = flt (clouds w1 ! a))) \<and>
    (\<forall>index a. DynamicGrid_value None (grid w') index = Some a \<longrightarrow>
       \<not> IsDefaultValue None (Some a) \<and>
       (index, Some a) \<in> set (iterate None (grid w')) \<and>
       (\<forall>pose scan'.
          (\<exists>q \<in> set scan'. fl_norm E q \<le> kDist \<and>
             GetCellIndex E (resolution w') (fl_apply E pose q) = index) \<longrightarrow>
          a \<in> surround_grids E w' pose scan')) \<and>
    (\<forall>scan' pose w'' cloud_surround.
       GetSurroundedCloud E w' scan' pose = Inr (w'', cloud_surround) \<longrightarrow> grid w'' = grid w') \<and>
    (\<forall>index g'' s index'.
       DynamicGrid_mutable_value None (grid w') index = Inr (g'', s) \<longrightarrow>
       DynamicGrid_value None g'' index' = DynamicGrid_value None (grid w') index')"
proof -
  from InsertScan_result [OF assms(2,4)] obtain w1
    where 1: "insert_points E w scan = Inr w1" and g: "grid w' = grid w1"
      and res: "resolution w' = resolution w" and len: "length (clouds w') = length (clouds w1)"
      and w': "scan \<noteq> [] \<longrightarrow>
        w' = fold (filter_cloud flt) (set_order E (scan_grids E w1 scan)) w1"
    by blast
  note s = insert_points_result [OF assms(2) 1]
  from s have inv1: "DynamicGrid_inv (grid w1)" and res1: "resolution w1 = resolution w"
    and hv1: "handles_valid w1"
    using assms(3) by blast+
  have inv': "DynamicGrid_inv (grid w')" using inv1 by (simp add: g)
  have keep: "\<forall>index a. DynamicGrid_value None (grid w) index = Some a \<longrightarrow>
      DynamicGrid_value None (grid w') index = Some a"
    using s by (simp add: g)
  have touched: "\<exists>a.
      DynamicGrid_value None (grid w') (GetCellIndex E (resolution w) p) = Some a \<and>
      a < length (clouds w') \<and> clouds w' ! a = flt (clouds w1 ! a)"
    if p: "p \<in> set scan" for p
  proof -
    from s p obtain a
      where a: "DynamicGrid_value None (grid w1) (GetCellIndex E (resolution w) p) = Some a"
      by blast
    have l: "a < length (clouds w1)" using hv1 a unfolding handles_valid_def by blast
    have m: "a \<in> scan_grids E w1 scan"
      unfolding scan_grids_eq using p a by (auto simp: res1)
    have o: "set (set_order E (scan_grids E w1 scan)) = scan_grids E w1 scan"
      "distinct (set_order E (scan_grids E w1 scan))"
      using assms(1) finite_scan_grids [of E w1 scan] unfolding order_ok_def by blast+
    have ne: "scan \<noteq> []" using p by auto
    have "clouds w' ! a = flt (clouds w1 ! a)"
      using fold_filter_cloud_nth [OF o(2) l, of flt] m w' ne by (simp add: o(1))
    then show ?thesis using a l by (simp add: g len)
  qed
  have seen: "\<not> IsDefaultValue None (Some a) \<and>
       (index, Some a) \<in> set (iterate None (grid w')) \<and>
       (\<forall>pose scan'.
          (\<exists>q \<in> set scan'. fl_norm E q \<le> kDist \<and>
             GetCellIndex E (resolution w') (fl_apply E pose q) = index) \<longrightarrow>
          a \<in> surround_grids E w' pose scan')"
    if v: "DynamicGrid_value None (grid w') index = Some a" for index a
  proof -
    have "(index, Some a) \<in> set (grid_entries None (grid w'))"
      using grid_entries_member_iff [OF inv', of index "Some a" None] v by simp
    then have "(index, Some a) \<in> set (iterate None (grid w'))"
      by (simp add: iterate_entries [OF inv'])
    moreover have "a \<in> surround_grids E w' pose scan'"
      if "\<exists>q \<in> set scan'. fl_norm E q \<le> kDist \<and>
             GetCellIndex E (resolution w') (fl_apply E pose q) = index" for pose scan'
      unfolding surround_grids_def fold_surround_step using that v
      by (auto simp: kDist_def)
    ultimately show ?thesis by (simp add: IsDefaultValue_def)
  qed
  have reads: "grid w'' = grid w'"
    if "GetSurroundedCloud E w' scan' pose = Inr (w'', cloud_surround)"
    for scan' pose w'' cloud_surround
    using that by (auto simp: GetSurroundedCloud_def Let_def split: option.splits)
  have grows: "DynamicGrid_value None g'' index' = DynamicGrid_value None (grid w') index'"
    if "DynamicGrid_mutable_value None (grid w') index = Inr (g'', s)" for index g'' s index'
    by (rule DynamicGrid_mutable_value_Inr(7) [OF inv' that])
  have third: "\<exists>w1. insert_points E w scan = Inr w1 \<and>
      length (clouds w') = length (clouds w1) \<and>
      (\<forall>p \<in> set scan. \<exists>a.
          DynamicGrid_value None (grid w') (GetCellIndex E (resolution w) p) = Some a \<and>
          a < length (clouds w') \<and> clouds w' ! a = flt (clouds w1 ! a))"
    using 1 len touched by blast
  show ?thesis
    apply (intro conjI)
         apply (rule res)
        apply (rule keep)
       apply (rule third)
      apply (intro allI impI)
      apply (erule seen)
     apply (intro allI impI)
     apply (erule reads)
    apply (intro allI impI)
    apply (erule grows)
    done
qed

theorem allocated_cells_stay_allocated_witness:
  "\<exists>w'. InsertScan exact_ops (HybridGridImpl_new (1 / 2)) (Some [(5 / 4, - 3 / 4, 1 / 10)])
          (\<lambda>c. []) = Inr w' \<and>
     clouds w' = [[]] \<and>
     DynamicGrid_value None (grid w') (3, - 2, 0) = Some 0 \<and>
     ((3, - 2, 0), Some 0) \<in> set (iterate None (grid w')) \<and>
     0 \<in> surround_grids exact_ops w' (5 / 4, - 3 / 4, 1 / 10) [(0, 0, 0)]"
proof -
  define p :: point where "p = (5 / 4, - 3 / 4, 1 / 10)"
  define i :: Array3i where "i = (3, - 2, 0)"
  define z :: point where "z = (0, 0, 0)"
  let ?w = "HybridGridImpl_new (1 / 2)"
  let ?flt = "(\<lambda>c. []) :: point list \<Rightarrow> point list"
  have cell: "GetCellIndex exact_ops (1 / 2) p = i"
    by (simp add: p_def i_def GetCellIndex_def RoundToInt_def lround_def exact_ops_def)
  have res: "resolution ?w = 1 / 2" and cl: "clouds ?w = []"
    by (simp_all add: HybridGridImpl_new_def)
  have inv: "DynamicGrid_inv (grid ?w)" by (simp add: HybridGridImpl_new_def DynamicGrid_inv_new)
  have ai: "addressable i" by (simp add: i_def addressable_def)
  have a: "\<forall>q \<in> set [p]. addressable (GetCellIndex exact_ops (resolution ?w) q)"
    using ai by (simp add: res cell)
  from InsertScan_succeeds [OF inv a, of ?flt]
  obtain w' where ins: "InsertScan exact_ops ?w (Some [p]) ?flt = Inr w'" by blast
  note c10 = allocated_cells_stay_allocated [OF order_ok_exact_ops inv handles_valid_new ins]
  from c10 have res': "resolution w' = 1 / 2" by (simp add: res)
  from c10 obtain w1 b where 1: "insert_points exact_ops ?w [p] = Inr w1"
    and len: "length (clouds w') = length (clouds w1)"
    and v: "DynamicGrid_value None (grid w') i = Some b"
    and b: "b < length (clouds w')" and e: "clouds w' ! b = []"
    by (auto simp: res cell)
  from 1 have ip: "insert_point exact_ops ?w p = Inr w1" by (simp split: sum.splits)
  have n: "DynamicGrid_value None (grid ?w) (GetCellIndex exact_ops (resolution ?w) p) = None"
    by (simp add: HybridGridImpl_new_def DynamicGrid_value_new)
  from insert_point_cases [OF inv ip] have "length (clouds w1) = 1"
    by (auto simp: n cl)
  then have l: "length (clouds w') = 1" by (simp add: len)
  then have b0: "b = 0" using b by simp
  have c: "clouds w' = [[]]"
    using l e unfolding b0 by (cases "clouds w'") simp_all
  have po: "fl_apply exact_ops p z = p" "fl_norm exact_ops z \<le> kDist"
    by (simp_all add: exact_ops_def kDist_def p_def z_def)
  have q: "\<exists>q \<in> set [z]. fl_norm exact_ops q \<le> kDist \<and>
      GetCellIndex exact_ops (resolution w') (fl_apply exact_ops p q) = i"
    by (simp add: res' po cell)
  from c10 v have s: "(i, Some b) \<in> set (iterate None (grid w')) \<and>
       (\<forall>pose scan'.
          (\<exists>q \<in> set scan'. fl_norm exact_ops q \<le> kDist \<and>
             GetCellIndex exact_ops (resolution w') (fl_apply exact_ops pose q) = i) \<longrightarrow>
          b \<in> surround_grids exact_ops w' pose scan')"
    by blast
  then have "b \<in> surround_grids exact_ops w' p [z]" using q by blast
  then show ?thesis using ins c v s unfolding b0 p_def i_def z_def by blast
qed

subsection \<open>A grid with two clouds\<close>

lemma insert_point_fresh:
  assumes "DynamicGrid_inv (grid w)" "addressable (GetCellIndex E (resolution w) p)"
    and "DynamicGrid_value None (grid w) (GetCellIndex E (resolution w) p) = None"
  shows "\<exists>w'. insert_point E w p = Inr w' \<and> clouds w' = clouds w @ [[p]] \<and>
    resolution w' = resolution w \<and> DynamicGrid_inv (grid w') \<and>
    (\<forall>index. DynamicGrid_value None (grid w') index =
       (if index = GetCellIndex E (resolution w) p then Some (length (clouds w))
        else DynamicGrid_value None (grid w) index))"
proof -
  let ?i = "GetCellIndex E (resolution w) p"
  from DynamicGrid_mutable_value_succeeds [OF assms(1,2)]
  obtain g' s where m: "DynamicGrid_mutable_value None (grid w) ?i = Inr (g', s)" by blast
  note r = DynamicGrid_mutable_value_Inr [OF assms(1) m]
  have get: "slot_get g' s = Some None" using r(6) assms(3) by simp
  have "insert_point E w p =
      Inr (w\<lparr>clouds := clouds w @ [[p]], grid := slot_set g' s (Some (length (clouds w)))\<rparr>)"
    by (simp add: insert_point_def m get)
  then show ?thesis using r(8) r(9) by simp
qed

lemma fold_filter_cloud_id: "fold (filter_cloud id) as w = w"
  by (induction as arbitrary: w) (simp_all add: filter_cloud_def)

theorem GetSurroundedCloud_radius_witness:
  "\<exists>w. InsertScan exact_ops (HybridGridImpl_new 1) (Some [(0, 0, 0), (- 200, 0, 0)]) id = Inr w \<and>
     clouds w = [[(0, 0, 0)], [(- 200, 0, 0)]] \<and>
     DynamicGrid_value None (grid w) (0, 0, 0) = Some 0 \<and>
     DynamicGrid_value None (grid w) (- 200, 0, 0) = Some 1 \<and>
     fl_norm exact_ops (200, 0, 0) = 200 \<and>
     DynamicGrid_value None (grid w)
       (GetCellIndex exact_ops (resolution w) (fl_apply exact_ops (- 200, 0, 0) (200, 0, 0))) =
       Some 0 \<and>
     surround_grids exact_ops w (- 200, 0, 0) [(200, 0, 0), (0, 0, 0)] = {1} \<and>
     GetSurroundedCloud exact_ops w (Some [(200, 0, 0), (0, 0, 0)]) (- 200, 0, 0) =
       Inr (w\<lparr>clouds := [[(0, 0, 0)], [(- 200, 0, 0)], [(- 200, 0, 0)]]\<rparr>, 2)"
proof -
  define p0 :: point where "p0 = (0, 0, 0)"
  define p1 :: point where "p1 = (- 200, 0, 0)"
  define far :: point where "far = (200, 0, 0)"
  define i0 :: Array3i where "i0 = (0, 0, 0)"
  define i1 :: Array3i where "i1 = (- 200, 0, 0)"
  define w0 where "w0 = HybridGridImpl_new 1"
  have cell: "GetCellIndex exact_ops 1 p0 = i0" "GetCellIndex exact_ops 1 p1 = i1"
    by (simp_all add: p0_def p1_def i0_def i1_def GetCellIndex_def RoundToInt_def lround_def
        exact_ops_def)
  have ne: "i1 \<noteq> i0" by (simp add: i0_def i1_def)
  have ad: "addressable i0" "addressable i1" by (simp_all add: i0_def i1_def addressable_def)
  have w0: "resolution w0 = 1" "clouds w0 = []" "DynamicGrid_inv (grid w0)"
    "DynamicGrid_value None (grid w0) index = None" for index
    by (simp_all add: w0_def HybridGridImpl_new_def DynamicGrid_inv_new DynamicGrid_value_new)
  from insert_point_fresh [of w0 exact_ops p0] ad(1)
  obtain wa where a: "insert_point exact_ops w0 p0 = Inr wa" "clouds wa = [[p0]]"
    "resolution wa = 1" "DynamicGrid_inv (grid wa)"
    and va: "\<forall>index. DynamicGrid_value None (grid wa) index =
      (if index = i0 then Some 0 else None)"
    by (auto simp: w0 cell)
  from insert_point_fresh [of wa exact_ops p1] ad(2) ne
  obtain w where b: "insert_point exact_ops wa p1 = Inr w" "clouds w = [[p0], [p1]]"
    "resolution w = 1" "DynamicGrid_inv (grid w)"
    and vb: "\<forall>index. DynamicGrid_value None (grid w) index =
      (if index = i1 then Some 1 else if index = i0 then Some 0 else None)"
    by (auto simp: a va cell)
  have v: "DynamicGrid_value None (grid w) i0 = Some 0"
    "DynamicGrid_value None (grid w) i1 = Some 1"
    using vb [rule_format, of i0] vb [rule_format, of i1] ne by simp_all
  have ins: "InsertScan exact_ops w0 (Some [p0, p1]) id = Inr w"
    by (simp add: InsertScan_def a b fold_filter_cloud_id)
  have n: "fl_norm exact_ops far = 200" "fl_norm exact_ops p0 = 0"
    using real_sqrt_abs2 [of 200] by (simp_all add: far_def p0_def exact_ops_def)
  have ap: "fl_apply exact_ops p1 far = p0" "fl_apply exact_ops p1 p0 = p1"
    by (simp_all add: far_def p0_def p1_def exact_ops_def)
  note c6 = GetSurroundedCloud_radius [of exact_ops w p1 "[far, p0]"]
  have look: "DynamicGrid_value None (grid w)
      (GetCellIndex exact_ops (resolution w) (fl_apply exact_ops p1 p0)) = Some 1"
    by (simp only: ap b(3) cell v)
  have "surround_grids exact_ops w p1 [far, p0] =
      {a. \<exists>p \<in> set [far, p0]. fl_norm exact_ops p \<le> 100 \<and>
        DynamicGrid_value None (grid w)
          (GetCellIndex exact_ops (resolution w) (fl_apply exact_ops p1 p)) = Some a}"
    by (rule c6 [THEN conjunct1])
  also have "\<dots> = {a. Some 1 = Some a}"
    by (simp add: n look)
  also have "\<dots> = {1}" by auto
  finally have S: "surround_grids exact_ops w p1 [far, p0] = {1}" .
  have so: "set_order exact_ops {Suc 0} = [Suc 0]" by (simp add: exact_ops_def)
  have "GetSurroundedCloud exact_ops w (Some [far, p0]) p1 =
     Inr (w\<lparr>clouds := clouds w @
            [concat (map (\<lambda>a. clouds w ! a)
               (set_order exact_ops (surround_grids exact_ops w p1 [far, p0])))]\<rparr>,
          length (clouds w))"
    by (rule c6 [THEN conjunct2, THEN conjunct2, THEN conjunct1])
  also have "\<dots> = Inr (w\<lparr>clouds := [[p0], [p1], [p1]]\<rparr>, 2)"
    by (simp add: S so b(2))
  finally have G: "GetSurroundedCloud exact_ops w (Some [far, p0]) p1 =
      Inr (w\<lparr>clouds := [[p0], [p1], [p1]]\<rparr>, 2)" .
  have L: "DynamicGrid_value None (grid w)
      (GetCellIndex exact_ops (resolution w) (fl_apply exact_ops p1 far)) = Some 0"
    by (simp add: ap b cell v)
  show ?thesis
    using ins b(2) v n(1) L S G
    unfolding p0_def p1_def far_def i0_def i1_def w0_def by blast
qed

end
